theory Spec2Isabelle
  imports Complex_Main
begin

section \<open>Data model (models.py, matcher.py)\<close>

text \<open>
  The three named tuples of the program. Python strings are modelled as \<open>string\<close>,
  Python integers as \<open>int\<close>.
\<close>

datatype Song = Song (title: string) (artist: string) (href: string)

datatype InputSong =
  InputSong (title: string) (artist: string) (gema_nr: string) (leader: string)

datatype Match = Match (display_name: string) (song: Song) (similarity: int)

text \<open>
  \<open>read_input_list\<close> returns a list whose elements are either the string
  \<open>"Break"\<close> (the only string it ever appends) or an \<open>InputSong\<close>.
\<close>

datatype item = Break | Entry InputSong

section \<open>The matcher (matcher.py)\<close>

text \<open>
  \<open>available_songs\<close> is a Python dict; \<open>available_songs.items()\<close> enumerates
  its (key, value) pairs in insertion order, each key once. The dict is modelled by
  that list of pairs; that the keys are pairwise different is the hypothesis
  \<open>distinct (map fst available_songs)\<close> wherever a property needs it.

  The scorer \<open>fuzz.ratio\<close> comes from the third-party package \<open>thefuzz\<close>; it is a
  parameter \<open>ratio\<close> of the model.
\<close>

definition search_string :: "InputSong \<Rightarrow> string" where
  "search_string input_song =
     InputSong.title input_song @ '' - '' @ InputSong.artist input_song"

text \<open>
  The body of the \<open>for\<close> loop: one catalog item, the list \<open>matches\<close> so far. The
  loop variables \<open>display_name\<close>, \<open>song\<close> and \<open>similarity\<close> are \<open>name\<close>, \<open>sng\<close> and
  \<open>score\<close> here, the field selectors of \<open>Match\<close> having taken their names.
\<close>

definition match_step ::
  "(string \<Rightarrow> string \<Rightarrow> int) \<Rightarrow> string \<Rightarrow> int \<Rightarrow> Match list \<Rightarrow> string \<times> Song \<Rightarrow> Match list"
where
  "match_step ratio s threshold matches kv =
     (case kv of (name, sng) \<Rightarrow>
        (let score = ratio s name
         in if score \<ge> threshold
            then matches @ [Match name sng score]
            else matches))"

text \<open>
  \<open>sorted(matches, key=lambda x: x.similarity)\<close> is a stable sort by key, which is
  what \<open>sort_key\<close> computes.
\<close>

definition find_matches ::
  "(string \<Rightarrow> string \<Rightarrow> int) \<Rightarrow> InputSong \<Rightarrow> (string \<times> Song) list \<Rightarrow> int \<Rightarrow> Match list"
where
  "find_matches ratio input_song available_songs threshold =
     (let matches = foldl (match_step ratio (search_string input_song) threshold) []
                      available_songs
      in sort_key similarity matches)"

text \<open>The list \<open>matches\<close> before sorting, as a comprehension over the catalog.\<close>

definition candidates ::
  "(string \<Rightarrow> string \<Rightarrow> int) \<Rightarrow> string \<Rightarrow> int \<Rightarrow> (string \<times> Song) list \<Rightarrow> Match list"
where
  "candidates ratio s threshold available_songs =
     map (\<lambda>(name, sng). Match name sng (ratio s name))
       (filter (\<lambda>(name, sng). ratio s name \<ge> threshold) available_songs)"

text \<open>
  Modelled from the spec: the edit distance of the scorer. \<open>fuzz.ratio\<close> is not under
  \<open>src/\<close>; the spec calls its score "edit-distance-based" and "Levenshtein-style",
  with no word on the costs. Taken here: the least number of insertions and deletions
  of single characters that turn one string into the other, a character replaced being
  one deleted and one inserted. Characters are compared as they are.
\<close>

fun edit_distance :: "'a list \<Rightarrow> 'a list \<Rightarrow> nat" where
  "edit_distance [] ys = length ys"
| "edit_distance (x # xs) [] = Suc (length xs)"
| "edit_distance (x # xs) (y # ys) =
     min (min (Suc (edit_distance xs (y # ys))) (Suc (edit_distance (x # xs) ys)))
       (if x = y then edit_distance xs ys else Suc (Suc (edit_distance xs ys)))"

text \<open>
  Modelled from the spec: the scorer, "a normalized similarity score (0-100) between
  the comparison string and the catalog label using an edit-distance-based ratio
  (Levenshtein-style: score = 100 x (1 - normalizedEditDistance), symmetric,
  case-sensitive as given)". The distance is normalised by the sum of the two lengths,
  which it never exceeds, and the score is the integer nearest to the quotient's
  complement times 100, a half going up; the spec names neither the normalisation nor
  the rounding. Two empty strings, which are equal, score 100.
\<close>

definition fuzz_ratio :: "string \<Rightarrow> string \<Rightarrow> int" where
  "fuzz_ratio s1 s2 =
     (let lensum = length s1 + length s2
      in if lensum = 0 then 100
         else int ((200 * (lensum - edit_distance s1 s2) + lensum) div (2 * lensum)))"

section \<open>The prompts (ui.py)\<close>

text \<open>
  The operator acts on the program through the keyboard only. A run is driven by the
  list of keys pressed so far; a prompt that finds the list exhausted is still waiting
  (\<open>Pending\<close>). \<open>Eof\<close> is the end of the standard input, as a closed input or Ctrl-D
  at the start of a line gives it; \<open>Other_key\<close> stands for any key without a binding.
\<close>

datatype key = Up | Down | Enter | CtrlC | Eof | Other_key

text \<open>
  What a prompt does with the keys: it is still waiting, it was interrupted (Ctrl-C, on
  which each prompt calls \<open>sys.exit(0)\<close>), it raised an exception that the program does
  not catch, or it returned a value and left the remaining keys.
\<close>

datatype 'a prompt = Pending | Interrupted | Failed | Answered 'a "key list"

text \<open>Python list indexing: a negative index counts from the end, out of range raises.\<close>

definition nth_py :: "'a list \<Rightarrow> int \<Rightarrow> 'a option" where
  "nth_py xs k =
     (let n = int (length xs); j = (if k < 0 then n + k else k)
      in if 0 \<le> j \<and> j < n then Some (xs ! nat j) else None)"

text \<open>
  The key bindings shared by the three dialogs, over \<open>n = len(choices)\<close> choices with
  \<open>selected_index = idx\<close>: up and down move the highlight cyclically and build the text
  of the dialog again, enter leaves the dialog with the highlighted index, Ctrl-C exits
  the process. \<open>shown idx\<close> says whether \<open>get_formatted_text()\<close> returns for the
  highlight \<open>idx\<close>; where it raises, the exception is not a \<open>KeyboardInterrupt\<close> and
  the \<open>try\<close> around \<open>application.run()\<close> does not catch it. Neither does it catch the
  \<open>EOFError\<close> with which prompt_toolkit ends an application whose input has ended.
\<close>

fun menu :: "(int \<Rightarrow> bool) \<Rightarrow> int \<Rightarrow> int \<Rightarrow> key list \<Rightarrow> int prompt" where
  "menu shown n idx [] = Pending"
| "menu shown n idx (Up # ks) =
     (if shown ((idx - 1) mod n) then menu shown n ((idx - 1) mod n) ks else Failed)"
| "menu shown n idx (Down # ks) =
     (if shown ((idx + 1) mod n) then menu shown n ((idx + 1) mod n) ks else Failed)"
| "menu shown n idx (Enter # ks) = Answered idx ks"
| "menu shown n idx (CtrlC # ks) = Interrupted"
| "menu shown n idx (Eof # ks) = Failed"
| "menu shown n idx (Other_key # ks) = menu shown n idx ks"

text \<open>
  The text of the selection dialog. \<open>str(n)\<close> for an integer, \<open>sep.join(xs)\<close>, and the
  two pieces of text that hold a character outside the ASCII range or a single quote:
  the marker of the highlighted choice (U+25B6, here the three bytes of its UTF-8
  form between two blanks and one) and the opening \<open>style\<close> tag.
\<close>

fun str_nat :: "nat \<Rightarrow> string" where
  "str_nat n =
     (if n < 10 then [''0123456789'' ! n]
      else str_nat (n div 10) @ [''0123456789'' ! (n mod 10)])"

declare str_nat.simps [simp del]

definition str_int :: "int \<Rightarrow> string" where
  "str_int k = (if k < 0 then ''-'' @ str_nat (nat (- k)) else str_nat (nat k))"

fun join :: "'a list \<Rightarrow> 'a list list \<Rightarrow> 'a list" where
  "join sep [] = []"
| "join sep [x] = x"
| "join sep (x # y # ys) = x @ sep @ join sep (y # ys)"

definition marked :: string where
  "marked = ''  '' @ [CHR 0xE2, CHR 0x96, CHR 0xB6] @ '' ''"

definition cyan :: string where
  "cyan = ''<style fg='' @ [CHR 0x27] @ ''cyan'' @ [CHR 0x27] @ ''>''"

text \<open>
  \<open>get_choice_text\<close> of \<open>select_match\<close>, with \<open>selected_index\<close> as a parameter. A
  choice is a pair of a match, or \<open>None\<close>, and a label; the choices without a match are
  the two that \<open>select_match\<close> adds, labelled "Skip" and "Go back", so the lines below
  the test of the label always find a match (\<open>None\<close> has no \<open>display_name\<close>; the model
  gives the empty name there).
\<close>

definition shortened :: "Match option \<Rightarrow> string" where
  "shortened m =
     (case m of
        None \<Rightarrow> []
      | Some m \<Rightarrow>
          (if length (display_name m) > 50 then take 47 (display_name m) @ ''...''
           else display_name m) @ '' ('' @ str_int (similarity m) @ ''%)'')"

definition get_choice_text :: "int \<Rightarrow> int \<Rightarrow> Match option \<times> string \<Rightarrow> string" where
  "get_choice_text selected_index index choice =
     (let is_selected = (index = selected_index);
          prefix = (if is_selected then marked else ''    '')
      in if is_selected then
           (if snd choice = ''Skip'' \<or> snd choice = ''Go back''
            then prefix @ cyan @ snd choice @ ''</style>''
            else prefix @ cyan @ shortened (fst choice) @ ''</style>'')
         else
           (if snd choice = ''Skip'' \<or> snd choice = ''Go back''
            then prefix @ snd choice
            else prefix @ shortened (fst choice)))"

definition get_formatted_text ::
  "string \<Rightarrow> (Match option \<times> string) list \<Rightarrow> int \<Rightarrow> string"
where
  "get_formatted_text song_title choices selected_index =
     (let title = ''Trying to match: <b>'' @ song_title @ ''</b>'' @ [CHR 0x0A];
          choices_text = join [CHR 0x0A]
            (map (\<lambda>(k, c). get_choice_text selected_index (int k) c) (enumerate 0 choices))
      in title @ choices_text)"

text \<open>\<open>handle_enter\<close> of \<open>select_match\<close>; \<open>result\<close> starts as \<open>[None, False]\<close>.\<close>

definition select_enter :: "Match option \<times> string \<Rightarrow> Match option \<times> bool" where
  "select_enter choice =
     (if snd choice = ''Go back'' then (None, True) else (fst choice, False))"

text \<open>
  \<open>select_match\<close>. \<open>get_formatted_text()\<close> ends in \<open>HTML(title + choices_text)\<close>,
  which parses its argument as XML and raises where it is not well-formed: for the first
  time when the layout is created, before the \<open>try\<close>, and then in the handlers of up
  and down. \<open>HTML\<close> belongs to the third-party package prompt_toolkit; whether it
  accepts a text is the parameter \<open>accepts\<close> of the model. The list \<open>choices\<close> is
  \<open>select_choices matches\<close>.
\<close>

definition select_choices :: "Match list \<Rightarrow> (Match option \<times> string) list" where
  "select_choices matches =
     map (\<lambda>m. (Some m, display_name m)) matches @ [(None, ''Skip''), (None, ''Go back'')]"

definition select_match ::
  "(string \<Rightarrow> bool) \<Rightarrow> Match list \<Rightarrow> string \<Rightarrow> key list \<Rightarrow> (Match option \<times> bool) prompt"
where
  "select_match accepts matches song_title ks =
     (let choices = select_choices matches;
          selected_index = int (length matches) - 1;
          shown = (\<lambda>idx. accepts (get_formatted_text song_title choices idx))
      in if \<not> shown selected_index then Failed
         else
           (case menu shown (int (length choices)) selected_index ks of
              Pending \<Rightarrow> Pending
            | Interrupted \<Rightarrow> Interrupted
            | Failed \<Rightarrow> Failed
            | Answered idx ks' \<Rightarrow>
                (case nth_py choices idx of
                   None \<Rightarrow> Failed
                 | Some choice \<Rightarrow> Answered (select_enter choice) ks')))"

text \<open>
  \<open>confirm_action\<close>: yes or no, "Yes" highlighted first. The text of this dialog and
  of the next is made of constants of the program, with balanced tags and no other
  markup, whichever choice is highlighted: \<open>HTML\<close> accepts it.
\<close>

definition confirm_action :: "key list \<Rightarrow> bool prompt" where
  "confirm_action ks =
     (let choices = [(True, ''Yes''), (False, ''No'')];
          selected_index = 0
      in case menu (\<lambda>idx. True) (int (length choices)) selected_index ks of
           Pending \<Rightarrow> Pending
         | Interrupted \<Rightarrow> Interrupted
         | Failed \<Rightarrow> Failed
         | Answered idx ks' \<Rightarrow>
             (case nth_py choices idx of
                None \<Rightarrow> Failed
              | Some choice \<Rightarrow> Answered (fst choice) ks'))"

text \<open>
  \<open>confirm_break\<close> returns \<open>(take_break, go_back)\<close>; \<open>result\<close> starts as
  \<open>[False, False]\<close>. The value of the "Go back" choice is \<open>None\<close>, which is never
  stored; as a truth value it would count as false.
\<close>

definition break_enter :: "bool option \<times> string \<Rightarrow> bool \<times> bool" where
  "break_enter choice =
     (if snd choice = ''Go back'' then (False, True) else (fst choice = Some True, False))"

definition confirm_break :: "key list \<Rightarrow> (bool \<times> bool) prompt" where
  "confirm_break ks =
     (let choices = [(Some True, ''Take a break''), (Some False, ''Skip break''),
                     (None, ''Go back'')];
          selected_index = 0
      in case menu (\<lambda>idx. True) (int (length choices)) selected_index ks of
           Pending \<Rightarrow> Pending
         | Interrupted \<Rightarrow> Interrupted
         | Failed \<Rightarrow> Failed
         | Answered idx ks' \<Rightarrow>
             (case nth_py choices idx of
                None \<Rightarrow> Failed
              | Some choice \<Rightarrow> Answered (break_enter choice) ks'))"

text \<open>
  The bare \<open>input()\<close> calls of \<open>main\<close>, each inside
  \<open>try ... except KeyboardInterrupt: sys.exit(0)\<close>: the call returns at the next
  enter, whatever was typed before it. At the end of the input it returns what was
  typed, if anything was, and raises \<open>EOFError\<close> otherwise, which nothing catches.
  \<open>typed\<close> says whether the line read so far has a character.
\<close>

fun input_line :: "bool \<Rightarrow> key list \<Rightarrow> unit prompt" where
  "input_line typed [] = Pending"
| "input_line typed (Enter # ks) = Answered () ks"
| "input_line typed (CtrlC # ks) = Interrupted"
| "input_line typed (Eof # ks) = (if typed then Answered () ks else Failed)"
| "input_line typed (k # ks) = input_line True ks"

definition read_line :: "key list \<Rightarrow> unit prompt" where
  "read_line ks = input_line False ks"

section \<open>The navigation loop (__main__.py)\<close>

text \<open>
  What \<open>main\<close> has when the loop starts: the optional \<open>break_url\<close> of the
  configuration, the setlist \<open>input_songs\<close>, the catalog \<open>available_songs\<close>, and the
  two functions of third-party packages: the scorer that \<open>find_matches\<close> calls and
  \<open>html\<close>, which says of a text whether \<open>HTML\<close> accepts it.
\<close>

record config =
  html :: "string \<Rightarrow> bool"
  scorer :: "string \<Rightarrow> string \<Rightarrow> int"
  break_url :: "string option"
  input_songs :: "item list"
  available_songs :: "(string \<times> Song) list"

text \<open>
  A stand-in for \<open>HTML\<close> in worked examples: it rejects the texts with an ampersand
  and accepts the others. This is what \<open>HTML\<close> does with the texts of the examples,
  in which the titles and labels hold letters, digits, blanks, hyphens and, in one, an
  ampersand followed by a blank.
\<close>

definition without_ampersand :: "string \<Rightarrow> bool" where
  "without_ampersand t \<longleftrightarrow> CHR ''&'' \<notin> set t"

text \<open>The second argument of the call of \<open>select_match\<close>: \<open>f"{entry.title} - {entry.artist}"\<close>.\<close>

definition song_title :: "InputSong \<Rightarrow> string" where
  "song_title entry = InputSong.title entry @ '' - '' @ InputSong.artist entry"

text \<open>
  The text of the selection dialog for an entry of the setlist, with the choice \<open>idx\<close>
  highlighted.
\<close>

definition dialog_text :: "config \<Rightarrow> InputSong \<Rightarrow> int \<Rightarrow> string" where
  "dialog_text cfg entry idx =
     get_formatted_text (song_title entry)
       (select_choices (find_matches (scorer cfg) entry (available_songs cfg) 60)) idx"

text \<open>\<open>not break_url\<close> holds for \<open>None\<close> and for the empty string.\<close>

definition has_break_url :: "config \<Rightarrow> bool" where
  "has_break_url cfg = (case break_url cfg of None \<Rightarrow> False | Some u \<Rightarrow> u \<noteq> [])"

text \<open>
  The side effects the loop has on the operator's screen and browser, in the order they
  happen: the announcement of the next performer, the break banner, the opening of the
  break page and of a song page (by its \<open>href\<close>).
\<close>

datatype effect =
  Announced InputSong | Break_banner | Opened_break | Opened_song string

text \<open>
  The variables of the loop, \<open>i\<close> and \<open>selected_songs\<close>, with two auxiliary
  components that the program does not hold: \<open>effects\<close>, the side effects so far, and
  \<open>advances\<close>, the number of times \<open>i += 1\<close> has run.
\<close>

record state =
  i :: int
  selected_songs :: "(string \<times> Match option) list"
  effects :: "effect list"
  advances :: nat

definition initial :: state where
  "initial = \<lparr>i = 0, selected_songs = [], effects = [], advances = 0\<rparr>"

text \<open>\<open>i += 1\<close>.\<close>

definition advance :: "state \<Rightarrow> state" where
  "advance s = s\<lparr>i := i s + 1, advances := Suc (advances s)\<rparr>"

text \<open>\<open>i = max(0, i - 1)\<close>.\<close>

definition go_back :: "state \<Rightarrow> state" where
  "go_back s = s\<lparr>i := max 0 (i s - 1)\<rparr>"

definition emit :: "effect \<Rightarrow> state \<Rightarrow> state" where
  "emit e s = s\<lparr>effects := effects s @ [e]\<rparr>"

definition append_selected :: "string \<times> Match option \<Rightarrow> state \<Rightarrow> state" where
  "append_selected r s = s\<lparr>selected_songs := selected_songs s @ [r]\<rparr>"

text \<open>
  How one pass through the loop body ends: at the loop head again (by \<open>continue\<close> or
  by reaching the end of the body) with the keys left, in \<open>sys.exit\<close> with a status,
  waiting at a prompt for more keys, or in an uncaught exception.
\<close>

datatype outcome =
  Proceed state "key list" | Exited int state | Blocked state | Crashed state

fun state_of :: "outcome \<Rightarrow> state" where
  "state_of (Proceed s ks) = s"
| "state_of (Exited c s) = s"
| "state_of (Blocked s) = s"
| "state_of (Crashed s) = s"

text \<open>The branch \<open>if entry == "Break"\<close>.\<close>

definition break_item :: "config \<Rightarrow> state \<Rightarrow> key list \<Rightarrow> outcome" where
  "break_item cfg s ks =
     (if \<not> has_break_url cfg then Proceed (advance s) ks
      else
        (let s1 = emit Break_banner s
         in case confirm_break ks of
              Pending \<Rightarrow> Blocked s1
            | Interrupted \<Rightarrow> Exited 0 s1
            | Failed \<Rightarrow> Crashed s1
            | Answered (take_break, back) ks1 \<Rightarrow>
                if back then Proceed (go_back s1) ks1
                else if take_break then
                  (let s2 = emit Opened_break (append_selected (''break'', None) s1)
                   in case read_line ks1 of
                        Pending \<Rightarrow> Blocked s2
                      | Interrupted \<Rightarrow> Exited 0 s2
                      | Failed \<Rightarrow> Crashed s2
                      | Answered u ks2 \<Rightarrow> Proceed (advance s2) ks2)
                else Proceed (advance s1) ks1))"

text \<open>The rest of the body, for an entry that is a song.\<close>

definition song_item :: "config \<Rightarrow> InputSong \<Rightarrow> state \<Rightarrow> key list \<Rightarrow> outcome" where
  "song_item cfg entry s ks =
     (let s1 = emit (Announced entry) s
      in case read_line ks of
           Pending \<Rightarrow> Blocked s1
         | Interrupted \<Rightarrow> Exited 0 s1
         | Failed \<Rightarrow> Crashed s1
         | Answered u ks1 \<Rightarrow>
             (let matches = find_matches (scorer cfg) entry (available_songs cfg) 60
              in if matches = [] then
                   (case confirm_action ks1 of
                      Pending \<Rightarrow> Blocked s1
                    | Interrupted \<Rightarrow> Exited 0 s1
                    | Failed \<Rightarrow> Crashed s1
                    | Answered skip ks2 \<Rightarrow>
                        if skip then Proceed (advance s1) ks2 else Exited 1 s1)
                 else
                   (case select_match (html cfg) matches (song_title entry) ks1 of
                      Pending \<Rightarrow> Blocked s1
                    | Interrupted \<Rightarrow> Exited 0 s1
                    | Failed \<Rightarrow> Crashed s1
                    | Answered (selected, back) ks2 \<Rightarrow>
                        if back then Proceed (go_back s1) ks2
                        else (case selected of
                                Some m \<Rightarrow>
                                  Proceed (advance (emit (Opened_song (href (song m)))
                                    (append_selected (''song'', Some m) s1))) ks2
                              | None \<Rightarrow> Proceed (advance s1) ks2))))"

text \<open>The loop body: \<open>entry = input_songs[i]\<close>, then one of the two branches.\<close>

definition loop_body :: "config \<Rightarrow> state \<Rightarrow> key list \<Rightarrow> outcome" where
  "loop_body cfg s ks =
     (case nth_py (input_songs cfg) (i s) of
        None \<Rightarrow> Crashed s
      | Some Break \<Rightarrow> break_item cfg s ks
      | Some (Entry entry) \<Rightarrow> song_item cfg entry s ks)"

lemma menu_consumes: "menu shown n idx ks = Answered j ks' \<Longrightarrow> length ks' < length ks"
  by (induction shown n idx ks rule: menu.induct) (auto split: if_splits)

lemma input_line_consumes:
  "input_line typed ks = Answered u ks' \<Longrightarrow> length ks' < length ks"
  by (induction typed ks rule: input_line.induct) (auto split: if_splits)

lemma read_line_consumes: "read_line ks = Answered u ks' \<Longrightarrow> length ks' < length ks"
  unfolding read_line_def by (rule input_line_consumes)

lemma select_match_consumes:
  "select_match acc ms st ks = Answered r ks' \<Longrightarrow> length ks' < length ks"
  by (auto simp: select_match_def Let_def split: if_splits prompt.splits option.splits
      dest: menu_consumes)

lemma confirm_action_consumes:
  "confirm_action ks = Answered r ks' \<Longrightarrow> length ks' < length ks"
  by (auto simp: confirm_action_def Let_def split: prompt.splits option.splits
      dest: menu_consumes)

lemma confirm_break_consumes:
  "confirm_break ks = Answered r ks' \<Longrightarrow> length ks' < length ks"
  by (auto simp: confirm_break_def Let_def split: prompt.splits option.splits
      dest: menu_consumes)

lemma break_item_progress:
  "break_item cfg s ks = Proceed s' ks' \<Longrightarrow>
     length ks' < length ks \<or> (ks' = ks \<and> i s' = i s + 1)"
  by (auto simp: break_item_def Let_def advance_def split: if_splits prompt.splits
      dest!: confirm_break_consumes read_line_consumes)

lemma song_item_progress:
  "song_item cfg entry s ks = Proceed s' ks' \<Longrightarrow> length ks' < length ks"
  by (auto simp: song_item_def Let_def split: if_splits prompt.splits option.splits
      dest!: confirm_action_consumes select_match_consumes read_line_consumes)

lemma loop_body_progress:
  "loop_body cfg s ks = Proceed s' ks' \<Longrightarrow>
     length ks' < length ks \<or> (ks' = ks \<and> i s' = i s + 1)"
  by (auto simp: loop_body_def split: option.splits item.splits
      dest: break_item_progress song_item_progress)

text \<open>
  \<open>while i < len(input_songs)\<close>. Each pass either uses up a key or moves \<open>i\<close> one
  step towards the end of the setlist without using one, so the loop comes to an end on
  every finite list of keys.
\<close>

function run :: "config \<Rightarrow> state \<Rightarrow> key list \<Rightarrow> outcome" where
  "run cfg s ks =
     (if i s < int (length (input_songs cfg)) then
        (case loop_body cfg s ks of
           Proceed s' ks' \<Rightarrow> run cfg s' ks'
         | Exited c s' \<Rightarrow> Exited c s'
         | Blocked s' \<Rightarrow> Blocked s'
         | Crashed s' \<Rightarrow> Crashed s')
      else Proceed s ks)"
  by pat_completeness auto
termination
proof (relation "measures [\<lambda>(cfg, s, ks). length ks,
                           \<lambda>(cfg, s, ks). nat (int (length (input_songs cfg)) - i s)]")
  show "wf (measures [\<lambda>(cfg, s, ks). length ks,
                           \<lambda>(cfg, s, ks). nat (int (length (input_songs cfg)) - i s)])"
    by simp
next
  fix cfg :: config and s :: state and ks :: "key list" and s' :: state and ks' :: "key list"
  assume "i s < int (length (input_songs cfg))" and "loop_body cfg s ks = Proceed s' ks'"
  then show "((cfg, s', ks'), (cfg, s, ks)) \<in> measures [\<lambda>(cfg, s, ks). length ks,
                           \<lambda>(cfg, s, ks). nat (int (length (input_songs cfg)) - i s)]"
    using loop_body_progress [of cfg s ks s' ks'] by auto
qed

text \<open>
  The loop from its start, and the lines after it: with a break URL configured the
  program waits for one more enter and opens the break page.
\<close>

definition navigate :: "config \<Rightarrow> key list \<Rightarrow> outcome" where
  "navigate cfg ks = run cfg initial ks"

definition main_loop :: "config \<Rightarrow> key list \<Rightarrow> outcome" where
  "main_loop cfg ks =
     (case navigate cfg ks of
        Proceed s ks1 \<Rightarrow>
          if has_break_url cfg then
            (case read_line ks1 of
               Pending \<Rightarrow> Blocked s
             | Interrupted \<Rightarrow> Exited 0 s
             | Failed \<Rightarrow> Crashed s
             | Answered u ks2 \<Rightarrow> Proceed (emit Opened_break s) ks2)
          else Proceed s ks1
      | Exited c s \<Rightarrow> Exited c s
      | Blocked s \<Rightarrow> Blocked s
      | Crashed s \<Rightarrow> Crashed s)"

text \<open>The states in which the loop condition can be evaluated, over all key lists.\<close>

inductive reachable :: "config \<Rightarrow> state \<Rightarrow> bool" for cfg :: config where
  start: "reachable cfg initial"
| pass: "reachable cfg s \<Longrightarrow> i s < int (length (input_songs cfg)) \<Longrightarrow>
         loop_body cfg s ks = Proceed s' ks' \<Longrightarrow> reachable cfg s'"

text \<open>
  Every pass that comes back to the loop head is one of three kinds: a step back, which
  leaves the records alone; a step forward that records nothing; a step forward with
  one record appended.
\<close>

definition stepped_back :: "state \<Rightarrow> state \<Rightarrow> bool" where
  "stepped_back s s' \<longleftrightarrow>
     i s' = max 0 (i s - 1) \<and> advances s' = advances s \<and> selected_songs s' = selected_songs s"

definition stepped_on :: "state \<Rightarrow> state \<Rightarrow> bool" where
  "stepped_on s s' \<longleftrightarrow>
     i s' = i s + 1 \<and> advances s' = Suc (advances s) \<and> selected_songs s' = selected_songs s"

definition recorded :: "state \<Rightarrow> state \<Rightarrow> bool" where
  "recorded s s' \<longleftrightarrow>
     i s' = i s + 1 \<and> advances s' = Suc (advances s)
     \<and> (\<exists>r. selected_songs s' = selected_songs s @ [r])"

declare run.simps [simp del]

section \<open>Properties of the matcher\<close>

lemma candidates_Nil: "candidates ratio s threshold [] = []"
  by (simp add: candidates_def)

lemma candidates_Cons:
  "candidates ratio s threshold ((k, v) # kvs) =
     (if threshold \<le> ratio s k then [Match k v (ratio s k)] else [])
       @ candidates ratio s threshold kvs"
  by (simp add: candidates_def)

lemma foldl_match_step:
  "foldl (match_step ratio s threshold) acc kvs = acc @ candidates ratio s threshold kvs"
proof (induction kvs arbitrary: acc)
  case Nil
  show ?case by (simp add: candidates_Nil)
next
  case (Cons kv kvs)
  obtain k v where kv: "kv = (k, v)" by (cases kv)
  have "match_step ratio s threshold acc (k, v) =
          acc @ (if threshold \<le> ratio s k then [Match k v (ratio s k)] else [])"
    by (simp add: match_step_def Let_def)
  then show ?case
    by (simp add: Cons.IH kv candidates_Cons)
qed

lemma find_matches_sort:
  "find_matches ratio inp catalog threshold =
     sort_key similarity (candidates ratio (search_string inp) threshold catalog)"
  by (simp add: find_matches_def foldl_match_step)

lemma set_find_matches:
  "set (find_matches ratio inp catalog threshold) =
     set (candidates ratio (search_string inp) threshold catalog)"
  by (simp add: find_matches_sort)

lemma in_candidates_iff:
  "m \<in> set (candidates ratio s threshold kvs) \<longleftrightarrow>
     (display_name m, song m) \<in> set kvs \<and> similarity m = ratio s (display_name m)
       \<and> threshold \<le> similarity m"
proof
  assume "m \<in> set (candidates ratio s threshold kvs)"
  then obtain k v where "(k, v) \<in> set kvs" "threshold \<le> ratio s k" "m = Match k v (ratio s k)"
    by (auto simp: candidates_def)
  then show "(display_name m, song m) \<in> set kvs \<and> similarity m = ratio s (display_name m)
       \<and> threshold \<le> similarity m"
    by simp
next
  assume a: "(display_name m, song m) \<in> set kvs \<and> similarity m = ratio s (display_name m)
       \<and> threshold \<le> similarity m"
  then have "m = Match (display_name m) (song m) (ratio s (display_name m))"
    by (cases m) simp
  with a show "m \<in> set (candidates ratio s threshold kvs)"
    by (force simp: candidates_def)
qed

lemma map_display_name_candidates:
  "map display_name (candidates ratio s threshold kvs) =
     filter (\<lambda>k. ratio s k \<ge> threshold) (map fst kvs)"
  by (induction kvs) (auto simp: candidates_def)

text \<open>
  C3. Every match returned by \<open>find_matches\<close> has a similarity of at least the
  threshold, whatever the song, the catalog, the threshold and the scorer; and a catalog
  entry whose score against the comparison string is below the threshold is the
  display name of no returned match.
\<close>

theorem find_matches_threshold:
  "(\<forall>m \<in> set (find_matches ratio inp catalog threshold).
       threshold \<le> similarity m)
   \<and> (\<forall>(name, sng) \<in> set catalog.
       ratio (search_string inp) name < threshold \<longrightarrow>
       name \<notin> display_name ` set (find_matches ratio inp catalog threshold))"
  by (auto simp: set_find_matches in_candidates_iff)

theorem find_matches_threshold_witness:
  "find_matches (\<lambda>a b. if a = b then 100 else 0) (InputSong ''A'' ''B'' ''1'' ''L'')
      [(''A - B'', Song ''A'' ''B'' ''/a''), (''X'', Song ''X'' '''' ''/x'')] 60
     = [Match ''A - B'' (Song ''A'' ''B'' ''/a'') 100]
   \<and> (60::int) \<le> similarity (Match ''A - B'' (Song ''A'' ''B'' ''/a'') 100)
   \<and> ''X'' \<notin> display_name ` set (find_matches (\<lambda>a b. if a = b then 100 else 0)
        (InputSong ''A'' ''B'' ''1'' ''L'')
        [(''A - B'', Song ''A'' ''B'' ''/a''), (''X'', Song ''X'' '''' ''/x'')] 60)"
  using find_matches_threshold [of "\<lambda>a b. if a = b then 100 else 0"
      "InputSong ''A'' ''B'' ''1'' ''L''"
      "[(''A - B'', Song ''A'' ''B'' ''/a''), (''X'', Song ''X'' '''' ''/x'')]" 60]
  by (simp add: find_matches_def match_step_def search_string_def)

lemma sorted_find_matches:
  "sorted (map similarity (find_matches ratio inp catalog threshold))"
  by (simp add: find_matches_sort)

lemma find_matches_stable:
  "map display_name (filter (\<lambda>m. similarity m = v)
       (find_matches ratio inp catalog threshold)) =
     filter (\<lambda>k. ratio (search_string inp) k = v \<and> threshold \<le> v)
       (map fst catalog)"
proof -
  let ?s = "search_string inp"
  have "filter (\<lambda>m. similarity m = v) (find_matches ratio inp catalog threshold)
        = filter (\<lambda>m. similarity m = v) (candidates ratio ?s threshold catalog)"
    by (simp add: find_matches_sort sort_key_stable)
  moreover have "map display_name
        (filter (\<lambda>m. similarity m = v) (candidates ratio ?s threshold kvs))
      = filter (\<lambda>k. ratio ?s k = v \<and> threshold \<le> v) (map fst kvs)" for kvs
    by (induction kvs) (auto simp: candidates_Cons candidates_Nil)
  ultimately show ?thesis by simp
qed

text \<open>
  C4. The list returned by \<open>find_matches\<close> is non-decreasing in the similarity, and
  matches of equal similarity keep the order of the catalog: for every score \<open>v\<close>, the
  display names of the returned matches of score \<open>v\<close>, read in order, are the catalog
  keys of score \<open>v\<close> (which is at least the threshold) in the catalog's iteration order.
\<close>

theorem find_matches_sorted_stable:
  "sorted (map similarity (find_matches ratio inp catalog threshold))
   \<and> (\<forall>v. map display_name (filter (\<lambda>m. similarity m = v)
              (find_matches ratio inp catalog threshold)) =
            filter (\<lambda>k. ratio (search_string inp) k = v \<and> threshold \<le> v)
              (map fst catalog))"
  using sorted_find_matches find_matches_stable by blast

lemma distinct_candidates:
  "distinct (map fst kvs) \<Longrightarrow> distinct (map display_name (candidates ratio s threshold kvs))"
  by (simp add: map_display_name_candidates)

lemma length_candidates: "length (candidates ratio s threshold kvs) \<le> length kvs"
  by (simp add: candidates_def)

text \<open>
  C10. Every match returned by \<open>find_matches\<close> comes from the catalog: its display
  name is a key of \<open>catalog\<close>, its song is the value stored under that key, no
  two returned matches share a display name, and there are at most as many matches as
  catalog entries. The keys of a dict are pairwise different.
\<close>

theorem find_matches_from_catalog:
  assumes "distinct (map fst catalog)"
  shows "(\<forall>m \<in> set (find_matches ratio inp catalog threshold).
            display_name m \<in> fst ` set catalog
            \<and> map_of catalog (display_name m) = Some (song m))
         \<and> distinct (map display_name (find_matches ratio inp catalog threshold))
         \<and> length (find_matches ratio inp catalog threshold)
             \<le> length catalog"
proof -
  let ?s = "search_string inp"
  let ?c = "candidates ratio ?s threshold catalog"
  have "distinct (map display_name ?c)"
    using assms by (rule distinct_candidates)
  then have d: "distinct (map display_name (sort_key similarity ?c))"
    by (simp add: distinct_map)
  have m: "display_name m \<in> fst ` set catalog
        \<and> map_of catalog (display_name m) = Some (song m)"
    if "m \<in> set (find_matches ratio inp catalog threshold)" for m
  proof -
    from that have "(display_name m, song m) \<in> set catalog"
      by (simp add: set_find_matches in_candidates_iff)
    with assms show ?thesis by (force simp: image_iff)
  qed
  from d m length_candidates [of ratio ?s threshold catalog]
  show ?thesis by (simp add: find_matches_sort)
qed

theorem find_matches_from_catalog_witness:
  "distinct (map fst [(''A - B'', Song ''A'' ''B'' ''/a''), (''X'', Song ''X'' '''' ''/x'')])
   \<and> find_matches (\<lambda>a b. if a = b then 100 else 0) (InputSong ''A'' ''B'' ''1'' ''L'')
      [(''A - B'', Song ''A'' ''B'' ''/a''), (''X'', Song ''X'' '''' ''/x'')] 60
     = [Match ''A - B'' (Song ''A'' ''B'' ''/a'') 100]
   \<and> map_of [(''A - B'', Song ''A'' ''B'' ''/a''), (''X'', Song ''X'' '''' ''/x'')] ''A - B''
     = Some (Song ''A'' ''B'' ''/a'')"
proof -
  have h: "distinct (map fst [(''A - B'', Song ''A'' ''B'' ''/a''), (''X'', Song ''X'' '''' ''/x'')])"
    by simp
  show ?thesis
    using h find_matches_from_catalog [OF h, of "\<lambda>a b. if a = b then 100 else 0"
      "InputSong ''A'' ''B'' ''1'' ''L''" 60]
    by (simp add: find_matches_def match_step_def search_string_def)
qed

text \<open>
  The scorer of the spec: its distance is symmetric and is 0 for equal strings only, its
  score lies within the bounds and is the nearest integer to the quotient.
\<close>

lemma edit_distance_Nil2: "edit_distance xs [] = length xs"
  by (cases xs) simp_all

lemma edit_distance_sym: "edit_distance xs ys = edit_distance ys xs"
  by (induction xs ys rule: edit_distance.induct)
    (simp_all add: edit_distance_Nil2 min.commute eq_commute)

lemma edit_distance_le: "edit_distance xs ys \<le> length xs + length ys"
  by (induction xs ys rule: edit_distance.induct) auto

lemma edit_distance_same: "edit_distance xs xs = 0"
  by (induction xs) simp_all

lemma edit_distance_zero: "edit_distance xs ys = 0 \<longleftrightarrow> xs = ys"
proof
  show "edit_distance xs ys = 0 \<Longrightarrow> xs = ys"
    by (induction xs ys rule: edit_distance.induct) (auto split: if_splits)
qed (simp add: edit_distance_same)

lemma fuzz_ratio_same: "fuzz_ratio a a = 100"
  by (simp add: fuzz_ratio_def Let_def edit_distance_same)

lemma fuzz_ratio_sym: "fuzz_ratio a b = fuzz_ratio b a"
  by (simp only: fuzz_ratio_def edit_distance_sym [of a b] add.commute [of "length a"])

lemma fuzz_ratio_range: "0 \<le> fuzz_ratio a b \<and> fuzz_ratio a b \<le> 100"
proof (cases "length a + length b = 0")
  case True
  then show ?thesis by (simp add: fuzz_ratio_def)
next
  case False
  define L where "L = length a + length b"
  define m where "m = L - edit_distance a b"
  have L: "0 < L" using False by (simp add: L_def)
  have m: "m \<le> L" by (simp add: m_def)
  from L m have "200 * m + L < 101 * (2 * L)" by simp
  then have "(200 * m + L) div (2 * L) < 101"
    by (rule less_mult_imp_div_less)
  moreover have "fuzz_ratio a b = int ((200 * m + L) div (2 * L))"
    using False by (simp add: fuzz_ratio_def Let_def L_def m_def)
  ultimately show ?thesis by simp
qed

lemma fuzz_ratio_nearest:
  assumes "a \<noteq> [] \<or> b \<noteq> []"
  shows "\<bar>real_of_int (fuzz_ratio a b)
          - 100 * (1 - real (edit_distance a b) / real (length a + length b))\<bar> \<le> 1 / 2"
proof -
  define L where "L = length a + length b"
  define d where "d = edit_distance a b"
  define q where "q = 100 * (1 - real d / real L)"
  from assms have L: "0 < L" by (auto simp: L_def)
  have d: "d \<le> L" unfolding d_def L_def by (rule edit_distance_le)
  have "real ((200 * (L - d) + L) div (2 * L))
      = real_of_int \<lfloor>real (200 * (L - d) + L) / real (2 * L)\<rfloor>"
    by (simp only: floor_divide_of_nat_eq)
  moreover have "real (200 * (L - d) + L) = 200 * (real L - real d) + real L"
    using d by (simp add: of_nat_diff)
  moreover have "(200 * (real L - real d) + real L) / real (2 * L) = q + 1 / 2"
    using L unfolding q_def by (simp add: field_simps)
  moreover have "fuzz_ratio a b = int ((200 * (L - d) + L) div (2 * L))"
    using L by (simp add: fuzz_ratio_def Let_def L_def d_def)
  ultimately have r: "real_of_int (fuzz_ratio a b) = real_of_int \<lfloor>q + 1 / 2\<rfloor>"
    by simp
  have "real_of_int \<lfloor>q + 1 / 2\<rfloor> \<le> q + 1 / 2" by (rule of_int_floor_le)
  moreover have "q + 1 / 2 < real_of_int \<lfloor>q + 1 / 2\<rfloor> + 1" by linarith
  ultimately have "\<bar>real_of_int (fuzz_ratio a b) - q\<bar> \<le> 1 / 2" unfolding r by linarith
  then show ?thesis by (simp only: q_def d_def L_def)
qed

text \<open>
  C9. The score that \<open>find_matches\<close> gives a match is the scorer's value for the
  comparison string \<open>"{title} - {artist}"\<close> and the catalog label, both as they are
  given, and a catalog label is kept whenever that value reaches the threshold. The
  scorer of the spec is an integer from 0 to 100, symmetric in its arguments, and the
  integer nearest to \<open>100 * (1 - d / n)\<close>, where \<open>d\<close> is the edit distance of the two
  strings and \<open>n\<close> the sum of their lengths; \<open>d\<close> is 0 for equal strings only, so a
  difference in case or in white space lowers the quotient, and equal strings score
  100.
\<close>

theorem similarity_is_edit_distance_ratio:
  "(\<forall>m \<in> set (find_matches fuzz_ratio inp catalog threshold).
      similarity m
        = fuzz_ratio (InputSong.title inp @ '' - '' @ InputSong.artist inp) (display_name m)
      \<and> 0 \<le> similarity m \<and> similarity m \<le> 100)
   \<and> (\<forall>kv \<in> set catalog.
        threshold
          \<le> fuzz_ratio (InputSong.title inp @ '' - '' @ InputSong.artist inp) (fst kv)
        \<longrightarrow> Match (fst kv) (snd kv)
              (fuzz_ratio (InputSong.title inp @ '' - '' @ InputSong.artist inp) (fst kv))
            \<in> set (find_matches fuzz_ratio inp catalog threshold))
   \<and> 0 \<le> fuzz_ratio a b \<and> fuzz_ratio a b \<le> 100
   \<and> fuzz_ratio a b = fuzz_ratio b a
   \<and> (a \<noteq> [] \<or> b \<noteq> []
      \<longrightarrow> \<bar>real_of_int (fuzz_ratio a b)
            - 100 * (1 - real (edit_distance a b) / real (length a + length b))\<bar> \<le> 1 / 2)
   \<and> (edit_distance a b = 0 \<longleftrightarrow> a = b)
   \<and> fuzz_ratio a a = 100"
proof -
  let ?s = "InputSong.title inp @ '' - '' @ InputSong.artist inp"
  have p: "\<forall>m \<in> set (find_matches fuzz_ratio inp catalog threshold).
      similarity m = fuzz_ratio ?s (display_name m)
      \<and> 0 \<le> similarity m \<and> similarity m \<le> 100"
  proof
    fix m
    assume "m \<in> set (find_matches fuzz_ratio inp catalog threshold)"
    then have "m \<in> set (candidates fuzz_ratio (search_string inp) threshold catalog)"
      by (simp only: set_find_matches)
    then have "similarity m = fuzz_ratio ?s (display_name m)"
      by (simp add: in_candidates_iff search_string_def)
    with fuzz_ratio_range [of ?s "display_name m"]
    show "similarity m = fuzz_ratio ?s (display_name m)
      \<and> 0 \<le> similarity m \<and> similarity m \<le> 100"
      by simp
  qed
  have q: "\<forall>kv \<in> set catalog. threshold \<le> fuzz_ratio ?s (fst kv)
        \<longrightarrow> Match (fst kv) (snd kv) (fuzz_ratio ?s (fst kv))
            \<in> set (find_matches fuzz_ratio inp catalog threshold)"
  proof (intro ballI impI)
    fix kv
    assume "kv \<in> set catalog" and "threshold \<le> fuzz_ratio ?s (fst kv)"
    then have "Match (fst kv) (snd kv) (fuzz_ratio ?s (fst kv))
        \<in> set (candidates fuzz_ratio (search_string inp) threshold catalog)"
      by (simp add: in_candidates_iff search_string_def)
    then show "Match (fst kv) (snd kv) (fuzz_ratio ?s (fst kv))
        \<in> set (find_matches fuzz_ratio inp catalog threshold)"
      by (simp only: set_find_matches)
  qed
  have r: "a \<noteq> [] \<or> b \<noteq> []
      \<longrightarrow> \<bar>real_of_int (fuzz_ratio a b)
            - 100 * (1 - real (edit_distance a b) / real (length a + length b))\<bar> \<le> 1 / 2"
    using fuzz_ratio_nearest [of a b] by blast
  from p q r fuzz_ratio_range [of a b] fuzz_ratio_sym [of a b] edit_distance_zero [of a b]
    fuzz_ratio_same [of a]
  show ?thesis by (intro conjI) (simp_all only:)
qed

theorem similarity_is_edit_distance_ratio_witness:
  "find_matches fuzz_ratio (InputSong ''Ab'' ''C'' ''1'' ''L'')
       [(''Ab - C'', Song ''Ab'' ''C'' ''/a''), (''ab'', Song ''ab'' '''' ''/b'')] 60
     = [Match ''Ab - C'' (Song ''Ab'' ''C'' ''/a'') 100]
   \<and> similarity (Match ''Ab - C'' (Song ''Ab'' ''C'' ''/a'') 100)
     = fuzz_ratio (''Ab'' @ '' - '' @ ''C'') ''Ab - C''
   \<and> fuzz_ratio ''Ab'' ''ab'' = 50 \<and> fuzz_ratio ''ab'' ''Ab'' = 50
   \<and> fuzz_ratio ''a b'' ''ab'' = 80
   \<and> edit_distance ''Ab'' ''ab'' = 2
   \<and> \<bar>real_of_int (fuzz_ratio ''Ab'' ''ab'')
        - 100 * (1 - real (edit_distance ''Ab'' ''ab'') / real (length ''Ab'' + length ''ab''))\<bar>
      \<le> 1 / 2"
proof -
  let ?inp = "InputSong ''Ab'' ''C'' ''1'' ''L''"
  let ?cat = "[(''Ab - C'', Song ''Ab'' ''C'' ''/a''), (''ab'', Song ''ab'' '''' ''/b'')]"
  let ?m = "Match ''Ab - C'' (Song ''Ab'' ''C'' ''/a'') 100"
  note c9 = similarity_is_edit_distance_ratio [of ?inp ?cat 60 "''Ab''" "''ab''"]
  have s: "fuzz_ratio ''Ab - C'' ''Ab - C'' = 100" by (rule fuzz_ratio_same)
  have t: "fuzz_ratio ''Ab - C'' ''ab'' = 25" by (simp add: fuzz_ratio_def)
  have fm: "find_matches fuzz_ratio ?inp ?cat 60 = [?m]"
    using s t by (simp add: find_matches_def match_step_def search_string_def)
  from c9 have "\<forall>m \<in> set (find_matches fuzz_ratio ?inp ?cat 60).
      similarity m
        = fuzz_ratio (InputSong.title ?inp @ '' - '' @ InputSong.artist ?inp) (display_name m)
      \<and> 0 \<le> similarity m \<and> similarity m \<le> 100"
    by (elim conjE)
  then have a: "similarity ?m = fuzz_ratio (''Ab'' @ '' - '' @ ''C'') ''Ab - C''"
    unfolding fm by simp
  from c9 have b: "fuzz_ratio ''Ab'' ''ab'' = fuzz_ratio ''ab'' ''Ab''"
    by (elim conjE)
  from c9 have "''Ab'' \<noteq> [] \<or> ''ab'' \<noteq> []
      \<longrightarrow> \<bar>real_of_int (fuzz_ratio ''Ab'' ''ab'')
            - 100 * (1 - real (edit_distance ''Ab'' ''ab'')
                / real (length ''Ab'' + length ''ab''))\<bar> \<le> 1 / 2"
    by (elim conjE)
  then have c: "\<bar>real_of_int (fuzz_ratio ''Ab'' ''ab'')
        - 100 * (1 - real (edit_distance ''Ab'' ''ab'') / real (length ''Ab'' + length ''ab''))\<bar>
      \<le> 1 / 2"
    by (rule mp) simp
  have v: "fuzz_ratio ''Ab'' ''ab'' = 50" by (simp add: fuzz_ratio_def)
  have w: "fuzz_ratio ''a b'' ''ab'' = 80" by (simp add: fuzz_ratio_def)
  have d: "edit_distance ''Ab'' ''ab'' = 2" by simp
  from b v have b': "fuzz_ratio ''ab'' ''Ab'' = 50" by (simp only:)
  from fm a v b' w d c show ?thesis by (intro conjI)
qed

section \<open>Properties of the prompts\<close>

lemma menu_Failed:
  "menu shown n idx ks = Failed \<Longrightarrow> Eof \<in> set ks \<or> (\<exists>j. \<not> shown j)"
  by (induction shown n idx ks rule: menu.induct) (auto split: if_splits)

lemma menu_keys: "menu shown n idx ks = Answered j ks' \<Longrightarrow> set ks' \<subseteq> set ks"
  by (induction shown n idx ks rule: menu.induct) (auto split: if_splits)

lemma menu_Interrupted: "menu shown n idx ks = Interrupted \<Longrightarrow> CtrlC \<in> set ks"
  by (induction shown n idx ks rule: menu.induct) (auto split: if_splits)

lemma menu_range:
  "0 < n \<Longrightarrow> menu shown n idx ks = Answered j ks' \<Longrightarrow> j = idx \<or> (0 \<le> j \<and> j < n)"
proof (induction shown n idx ks rule: menu.induct)
  case (2 shown n idx ks)
  then have "j = (idx - 1) mod n \<or> (0 \<le> j \<and> j < n)" by (simp split: if_splits)
  with \<open>0 < n\<close> show ?case by auto
next
  case (3 shown n idx ks)
  then have "j = (idx + 1) mod n \<or> (0 \<le> j \<and> j < n)" by (simp split: if_splits)
  with \<open>0 < n\<close> show ?case by auto
qed auto

lemma input_line_Failed: "input_line typed ks = Failed \<Longrightarrow> Eof \<in> set ks"
  by (induction typed ks rule: input_line.induct) (auto split: if_splits)

lemma input_line_keys: "input_line typed ks = Answered u ks' \<Longrightarrow> set ks' \<subseteq> set ks"
  by (induction typed ks rule: input_line.induct) (auto split: if_splits)

lemma input_line_Interrupted: "input_line typed ks = Interrupted \<Longrightarrow> CtrlC \<in> set ks"
  by (induction typed ks rule: input_line.induct) (auto split: if_splits)

lemma read_line_Failed: "read_line ks = Failed \<Longrightarrow> Eof \<in> set ks"
  unfolding read_line_def by (rule input_line_Failed)

lemma read_line_keys: "read_line ks = Answered u ks' \<Longrightarrow> set ks' \<subseteq> set ks"
  unfolding read_line_def by (rule input_line_keys)

lemma read_line_Interrupted: "read_line ks = Interrupted \<Longrightarrow> CtrlC \<in> set ks"
  unfolding read_line_def by (rule input_line_Interrupted)

lemma read_line_simps [simp]:
  "read_line [] = Pending" "read_line (Enter # ks) = Answered () ks"
  "read_line (CtrlC # ks) = Interrupted" "read_line (Eof # ks) = Failed"
  by (simp_all add: read_line_def)

lemma nth_py_Some_iff: "(\<exists>x. nth_py xs k = Some x) \<longleftrightarrow> - int (length xs) \<le> k \<and> k < int (length xs)"
  by (auto simp: nth_py_def Let_def)

lemma nth_py_nonneg: "0 \<le> k \<Longrightarrow> k < int (length xs) \<Longrightarrow> nth_py xs k = Some (xs ! nat k)"
  by (simp add: nth_py_def Let_def)

lemma nth_py_in_set: "nth_py xs k = Some x \<Longrightarrow> x \<in> set xs"
  by (auto simp: nth_py_def Let_def split: if_splits)

lemma nth_py_less: "nth_py xs k = Some x \<Longrightarrow> k < int (length xs)"
  by (auto simp: nth_py_def Let_def split: if_splits)

lemma select_match_keys:
  "select_match acc ms st ks = Answered r ks' \<Longrightarrow> set ks' \<subseteq> set ks"
  by (auto simp: select_match_def Let_def split: if_splits prompt.splits option.splits
      dest: menu_keys)

lemma select_match_Interrupted:
  "select_match acc ms st ks = Interrupted \<Longrightarrow> CtrlC \<in> set ks"
  by (auto simp: select_match_def Let_def split: if_splits prompt.splits option.splits
      dest: menu_Interrupted)

text \<open>
  The selection dialog raises only at the end of the input or where \<open>HTML\<close> rejects its
  text; the two other dialogs only at the end of the input.
\<close>

lemma select_match_Failed:
  assumes f: "select_match acc ms st ks = Failed"
  shows "Eof \<in> set ks \<or> (\<exists>j. \<not> acc (get_formatted_text st (select_choices ms) j))"
proof (rule ccontr)
  assume n: "\<not> (Eof \<in> set ks \<or> (\<exists>j. \<not> acc (get_formatted_text st (select_choices ms) j)))"
  let ?cs = "select_choices ms"
  let ?shown = "\<lambda>idx. acc (get_formatted_text st ?cs idx)"
  have l: "int (length ?cs) = int (length ms) + 2" by (simp add: select_choices_def)
  from n have nf: "menu ?shown (int (length ?cs)) (int (length ms) - 1) ks \<noteq> Failed"
    using menu_Failed [of ?shown "int (length ?cs)" "int (length ms) - 1" ks] by blast
  from f n nf obtain j ks' where
    m: "menu ?shown (int (length ?cs)) (int (length ms) - 1) ks = Answered j ks'"
    and e: "nth_py ?cs j = None"
    by (auto simp: select_match_def Let_def split: if_splits prompt.splits option.splits)
  have "j = int (length ms) - 1 \<or> (0 \<le> j \<and> j < int (length ?cs))"
    using menu_range [OF _ m] l by simp
  with l have "- int (length ?cs) \<le> j \<and> j < int (length ?cs)" by auto
  then have "\<exists>x. nth_py ?cs j = Some x" by (simp only: nth_py_Some_iff)
  with e show False by simp
qed

text \<open>What the selection dialog can return: a match of the list, a skip, or a go-back.\<close>

lemma select_match_result:
  assumes "select_match acc ms st ks = Answered (sel, back) ks'"
  shows "(back \<longrightarrow> sel = None) \<and> (\<forall>m. sel = Some m \<longrightarrow> m \<in> set ms)"
proof -
  let ?cs = "select_choices ms"
  from assms obtain j c where c: "nth_py ?cs j = Some c" and r: "select_enter c = (sel, back)"
    by (auto simp: select_match_def Let_def split: if_splits prompt.splits option.splits)
  from c have "c \<in> set ?cs" by (rule nth_py_in_set)
  then have "fst c = None \<or> (\<exists>m \<in> set ms. fst c = Some m)"
    by (auto simp: select_choices_def)
  with r show ?thesis by (auto simp: select_enter_def split: if_splits)
qed

lemma confirm_action_keys: "confirm_action ks = Answered r ks' \<Longrightarrow> set ks' \<subseteq> set ks"
  by (auto simp: confirm_action_def Let_def split: prompt.splits option.splits dest: menu_keys)

lemma confirm_action_Interrupted: "confirm_action ks = Interrupted \<Longrightarrow> CtrlC \<in> set ks"
  by (auto simp: confirm_action_def Let_def split: prompt.splits option.splits
      dest: menu_Interrupted)

lemma confirm_action_Failed:
  assumes f: "confirm_action ks = Failed"
  shows "Eof \<in> set ks"
proof (rule ccontr)
  assume n: "Eof \<notin> set ks"
  let ?cs = "[(True, ''Yes''), (False, ''No'')]"
  from n have nf: "menu (\<lambda>idx. True) (int (length ?cs)) 0 ks \<noteq> Failed"
    using menu_Failed [of "\<lambda>idx. True" "int (length ?cs)" 0 ks] by blast
  from f nf obtain j ks' where m: "menu (\<lambda>idx. True) (int (length ?cs)) 0 ks = Answered j ks'"
    and e: "nth_py ?cs j = None"
    by (auto simp: confirm_action_def Let_def split: prompt.splits option.splits)
  have "j = 0 \<or> (0 \<le> j \<and> j < int (length ?cs))"
    using menu_range [OF _ m] by simp
  then have "- int (length ?cs) \<le> j \<and> j < int (length ?cs)" by auto
  then have "\<exists>x. nth_py ?cs j = Some x" by (simp only: nth_py_Some_iff)
  with e show False by simp
qed

lemma confirm_break_keys: "confirm_break ks = Answered r ks' \<Longrightarrow> set ks' \<subseteq> set ks"
  by (auto simp: confirm_break_def Let_def split: prompt.splits option.splits dest: menu_keys)

lemma confirm_break_Interrupted: "confirm_break ks = Interrupted \<Longrightarrow> CtrlC \<in> set ks"
  by (auto simp: confirm_break_def Let_def split: prompt.splits option.splits
      dest: menu_Interrupted)

lemma confirm_break_Failed:
  assumes f: "confirm_break ks = Failed"
  shows "Eof \<in> set ks"
proof (rule ccontr)
  assume n: "Eof \<notin> set ks"
  let ?cs = "[(Some True, ''Take a break''), (Some False, ''Skip break''), (None, ''Go back'')]"
  from n have nf: "menu (\<lambda>idx. True) (int (length ?cs)) 0 ks \<noteq> Failed"
    using menu_Failed [of "\<lambda>idx. True" "int (length ?cs)" 0 ks] by blast
  from f nf obtain j ks' where m: "menu (\<lambda>idx. True) (int (length ?cs)) 0 ks = Answered j ks'"
    and e: "nth_py ?cs j = None"
    by (auto simp: confirm_break_def Let_def split: prompt.splits option.splits)
  have "j = 0 \<or> (0 \<le> j \<and> j < int (length ?cs))"
    using menu_range [OF _ m] by simp
  then have "- int (length ?cs) \<le> j \<and> j < int (length ?cs)" by auto
  then have "\<exists>x. nth_py ?cs j = Some x" by (simp only: nth_py_Some_iff)
  with e show False by simp
qed

section \<open>One pass through the loop body\<close>

lemma state_simps [simp]:
  "i (advance s) = i s + 1" "advances (advance s) = Suc (advances s)"
  "selected_songs (advance s) = selected_songs s" "effects (advance s) = effects s"
  "i (go_back s) = max 0 (i s - 1)" "advances (go_back s) = advances s"
  "selected_songs (go_back s) = selected_songs s" "effects (go_back s) = effects s"
  "i (emit e s) = i s" "advances (emit e s) = advances s"
  "selected_songs (emit e s) = selected_songs s" "effects (emit e s) = effects s @ [e]"
  "i (append_selected r s) = i s" "advances (append_selected r s) = advances s"
  "selected_songs (append_selected r s) = selected_songs s @ [r]"
  "effects (append_selected r s) = effects s"
  by (simp_all add: advance_def go_back_def emit_def append_selected_def)

text \<open>The named paths through the body, each by the answers the prompts gave.\<close>

lemma break_without_url:
  "nth_py (input_songs cfg) (i s) = Some Break \<Longrightarrow> \<not> has_break_url cfg \<Longrightarrow>
     loop_body cfg s ks = Proceed (advance s) ks"
  by (simp add: loop_body_def break_item_def)

lemma break_go_back:
  "nth_py (input_songs cfg) (i s) = Some Break \<Longrightarrow> has_break_url cfg \<Longrightarrow>
   confirm_break ks = Answered (take_break, True) ks1 \<Longrightarrow>
     loop_body cfg s ks = Proceed (go_back (emit Break_banner s)) ks1"
  by (simp add: loop_body_def break_item_def)

lemma break_skip:
  "nth_py (input_songs cfg) (i s) = Some Break \<Longrightarrow> has_break_url cfg \<Longrightarrow>
   confirm_break ks = Answered (False, False) ks1 \<Longrightarrow>
     loop_body cfg s ks = Proceed (advance (emit Break_banner s)) ks1"
  by (simp add: loop_body_def break_item_def)

lemma break_take:
  "nth_py (input_songs cfg) (i s) = Some Break \<Longrightarrow> has_break_url cfg \<Longrightarrow>
   confirm_break ks = Answered (True, False) ks1 \<Longrightarrow> read_line ks1 = Answered u ks2 \<Longrightarrow>
     loop_body cfg s ks =
       Proceed (advance (emit Opened_break (append_selected (''break'', None)
          (emit Break_banner s)))) ks2"
  by (simp add: loop_body_def break_item_def)

lemma song_go_back:
  "nth_py (input_songs cfg) (i s) = Some (Entry e) \<Longrightarrow> read_line ks = Answered u ks1 \<Longrightarrow>
   find_matches (scorer cfg) e (available_songs cfg) 60 \<noteq> [] \<Longrightarrow>
   select_match (html cfg) (find_matches (scorer cfg) e (available_songs cfg) 60)
         (song_title e) ks1
     = Answered (sel, True) ks2 \<Longrightarrow>
     loop_body cfg s ks = Proceed (go_back (emit (Announced e) s)) ks2"
  by (simp add: loop_body_def song_item_def)

lemma song_skip:
  "nth_py (input_songs cfg) (i s) = Some (Entry e) \<Longrightarrow> read_line ks = Answered u ks1 \<Longrightarrow>
   find_matches (scorer cfg) e (available_songs cfg) 60 \<noteq> [] \<Longrightarrow>
   select_match (html cfg) (find_matches (scorer cfg) e (available_songs cfg) 60)
         (song_title e) ks1
     = Answered (None, False) ks2 \<Longrightarrow>
     loop_body cfg s ks = Proceed (advance (emit (Announced e) s)) ks2"
  by (simp add: loop_body_def song_item_def)

lemma song_pick:
  "nth_py (input_songs cfg) (i s) = Some (Entry e) \<Longrightarrow> read_line ks = Answered u ks1 \<Longrightarrow>
   find_matches (scorer cfg) e (available_songs cfg) 60 \<noteq> [] \<Longrightarrow>
   select_match (html cfg) (find_matches (scorer cfg) e (available_songs cfg) 60)
         (song_title e) ks1
     = Answered (Some m, False) ks2 \<Longrightarrow>
     loop_body cfg s ks =
       Proceed (advance (emit (Opened_song (href (song m)))
          (append_selected (''song'', Some m) (emit (Announced e) s)))) ks2"
  by (simp add: loop_body_def song_item_def)

lemma no_match_skip:
  "nth_py (input_songs cfg) (i s) = Some (Entry e) \<Longrightarrow> read_line ks = Answered u ks1 \<Longrightarrow>
   find_matches (scorer cfg) e (available_songs cfg) 60 = [] \<Longrightarrow>
   confirm_action ks1 = Answered True ks2 \<Longrightarrow>
     loop_body cfg s ks = Proceed (advance (emit (Announced e) s)) ks2"
  by (simp add: loop_body_def song_item_def)

lemma no_match_decline:
  "nth_py (input_songs cfg) (i s) = Some (Entry e) \<Longrightarrow> read_line ks = Answered u ks1 \<Longrightarrow>
   find_matches (scorer cfg) e (available_songs cfg) 60 = [] \<Longrightarrow>
   confirm_action ks1 = Answered False ks2 \<Longrightarrow>
     loop_body cfg s ks = Exited 1 (emit (Announced e) s)"
  by (simp add: loop_body_def song_item_def)

lemma break_item_Proceed:
  "break_item cfg s ks = Proceed s' ks' \<Longrightarrow>
     stepped_back s s' \<or> stepped_on s s' \<or> recorded s s'"
  by (auto simp: break_item_def Let_def stepped_back_def stepped_on_def recorded_def
      split: if_splits prompt.splits)

lemma song_item_Proceed:
  "song_item cfg e s ks = Proceed s' ks' \<Longrightarrow>
     stepped_back s s' \<or> stepped_on s s' \<or> recorded s s'"
  by (auto simp: song_item_def Let_def stepped_back_def stepped_on_def recorded_def
      split: if_splits prompt.splits option.splits)

lemma loop_body_Proceed:
  "loop_body cfg s ks = Proceed s' ks' \<Longrightarrow>
     stepped_back s s' \<or> stepped_on s s' \<or> recorded s s'"
  by (auto simp: loop_body_def split: option.splits item.splits
      dest: break_item_Proceed song_item_Proceed)

text \<open>
  A pass that does not come back to the loop head leaves \<open>i\<close> alone; the one record it
  can have appended is that of a break taken, while the program waits for enter.
\<close>

lemma break_item_stops:
  "break_item cfg s ks = out \<Longrightarrow> \<forall>s' ks'. out \<noteq> Proceed s' ks' \<Longrightarrow>
     i (state_of out) = i s \<and> advances (state_of out) = advances s
     \<and> (selected_songs (state_of out) = selected_songs s
        \<or> selected_songs (state_of out) = selected_songs s @ [(''break'', None)])"
  by (auto simp: break_item_def Let_def split: if_splits prompt.splits)

lemma song_item_stops:
  "song_item cfg e s ks = out \<Longrightarrow> \<forall>s' ks'. out \<noteq> Proceed s' ks' \<Longrightarrow>
     i (state_of out) = i s \<and> advances (state_of out) = advances s
     \<and> selected_songs (state_of out) = selected_songs s"
  by (auto simp: song_item_def Let_def split: if_splits prompt.splits option.splits)

lemma loop_body_stops:
  "loop_body cfg s ks = out \<Longrightarrow> \<forall>s' ks'. out \<noteq> Proceed s' ks' \<Longrightarrow>
     i (state_of out) = i s \<and> advances (state_of out) = advances s
     \<and> (selected_songs (state_of out) = selected_songs s
        \<or> selected_songs (state_of out) = selected_songs s @ [(''break'', None)])"
  using break_item_stops [of cfg s ks out] song_item_stops [of cfg _ s ks out]
  by (auto simp: loop_body_def split: option.splits item.splits)

lemma break_item_keys:
  assumes p: "break_item cfg s ks = Proceed s' ks'"
  shows "set ks' \<subseteq> set ks"
proof (cases "has_break_url cfg")
  case False
  with p show ?thesis by (simp add: break_item_def)
next
  case True
  with p obtain r ks1 where c: "confirm_break ks = Answered r ks1"
    by (cases "confirm_break ks") (simp_all add: break_item_def Let_def)
  then have k1: "set ks1 \<subseteq> set ks" by (rule confirm_break_keys)
  obtain tb gb where r: "r = (tb, gb)" by (cases r)
  show ?thesis
  proof (cases "\<not> gb \<and> tb")
    case False
    with p True c r have "ks' = ks1"
      by (auto simp: break_item_def Let_def split: if_splits)
    with k1 show ?thesis by simp
  next
    case tk: True
    with p True c r obtain u where "read_line ks1 = Answered u ks'"
      by (cases "read_line ks1") (simp_all add: break_item_def Let_def)
    then have "set ks' \<subseteq> set ks1" by (rule read_line_keys)
    with k1 show ?thesis by blast
  qed
qed

lemma song_item_keys:
  assumes "song_item cfg e s ks = Proceed s' ks'"
  shows "set ks' \<subseteq> set ks"
proof -
  from assms obtain u ks1 where l: "read_line ks = Answered u ks1"
    by (cases "read_line ks") (simp_all add: song_item_def Let_def)
  then have k1: "set ks1 \<subseteq> set ks" by (rule read_line_keys)
  let ?ms = "find_matches (scorer cfg) e (available_songs cfg) 60"
  have "set ks' \<subseteq> set ks1"
  proof (cases "?ms = []")
    case True
    with assms l obtain b where "confirm_action ks1 = Answered b ks'"
      by (cases "confirm_action ks1") (auto simp: song_item_def Let_def split: if_splits)
    then show ?thesis by (rule confirm_action_keys)
  next
    case False
    with assms l obtain r where "select_match (html cfg) ?ms (song_title e) ks1 = Answered r ks'"
      by (cases "select_match (html cfg) ?ms (song_title e) ks1")
        (auto simp: song_item_def Let_def split: if_splits option.splits)
    then show ?thesis by (rule select_match_keys)
  qed
  with k1 show ?thesis by blast
qed

lemma loop_body_keys: "loop_body cfg s ks = Proceed s' ks' \<Longrightarrow> set ks' \<subseteq> set ks"
  by (auto simp: loop_body_def split: option.splits item.splits
      dest: break_item_keys song_item_keys)

text \<open>
  A pass ends in an exception only at the end of the input or, at a song, where \<open>HTML\<close>
  rejects the text of the selection dialog.
\<close>

lemma break_item_Crashed:
  assumes c: "break_item cfg s ks = Crashed s'"
  shows "Eof \<in> set ks"
proof (cases "has_break_url cfg")
  case False
  with c show ?thesis by (simp add: break_item_def)
next
  case True
  show ?thesis
  proof (cases "confirm_break ks")
    case Failed
    then show ?thesis by (rule confirm_break_Failed)
  next
    case (Answered r ks1)
    obtain tb gb where r: "r = (tb, gb)" by (cases r)
    from Answered have k: "set ks1 \<subseteq> set ks" by (rule confirm_break_keys)
    from c True Answered r have "read_line ks1 = Failed"
      by (cases "read_line ks1") (auto simp: break_item_def Let_def split: if_splits)
    then have "Eof \<in> set ks1" by (rule read_line_Failed)
    with k show ?thesis by blast
  qed (use c True in \<open>simp_all add: break_item_def Let_def\<close>)
qed

lemma song_item_Crashed:
  assumes c: "song_item cfg e s ks = Crashed s'"
  shows "Eof \<in> set ks \<or> (\<exists>j. \<not> html cfg (dialog_text cfg e j))"
proof (cases "read_line ks")
  case Failed
  then have "Eof \<in> set ks" by (rule read_line_Failed)
  then show ?thesis by simp
next
  case (Answered u ks1)
  then have k: "set ks1 \<subseteq> set ks" by (rule read_line_keys)
  let ?ms = "find_matches (scorer cfg) e (available_songs cfg) 60"
  show ?thesis
  proof (cases "?ms = []")
    case True
    with c Answered have "confirm_action ks1 = Failed"
      by (cases "confirm_action ks1") (auto simp: song_item_def Let_def split: if_splits)
    then have "Eof \<in> set ks1" by (rule confirm_action_Failed)
    with k show ?thesis by blast
  next
    case False
    with c Answered have "select_match (html cfg) ?ms (song_title e) ks1 = Failed"
      by (cases "select_match (html cfg) ?ms (song_title e) ks1")
        (auto simp: song_item_def Let_def split: if_splits option.splits)
    from select_match_Failed [OF this] k show ?thesis
      by (auto simp: dialog_text_def)
  qed
qed (use c in \<open>simp_all add: song_item_def Let_def\<close>)

section \<open>Runs of the loop\<close>

lemma run_end: "\<not> i s < int (length (input_songs cfg)) \<Longrightarrow> run cfg s ks = Proceed s ks"
  by (subst run.simps) simp

lemma run_pass:
  "i s < int (length (input_songs cfg)) \<Longrightarrow> loop_body cfg s ks = Proceed s' ks' \<Longrightarrow>
     run cfg s ks = run cfg s' ks'"
  by (subst run.simps) simp

lemma run_stop:
  "i s < int (length (input_songs cfg)) \<Longrightarrow> \<forall>s' ks'. loop_body cfg s ks \<noteq> Proceed s' ks' \<Longrightarrow>
     run cfg s ks = loop_body cfg s ks"
  by (subst run.simps) (cases "loop_body cfg s ks"; simp)

text \<open>
  The last pass of a run: a run from a reachable state either leaves the loop at a
  reachable state, or ends in a pass, begun at a reachable state, that does not come
  back to the loop head.
\<close>

lemma run_last:
  "reachable cfg s \<Longrightarrow>
     \<exists>s0 ks0. reachable cfg s0 \<and> set ks0 \<subseteq> set ks \<and>
       (run cfg s ks = Proceed s0 ks0 \<and> \<not> i s0 < int (length (input_songs cfg))
        \<or> i s0 < int (length (input_songs cfg)) \<and> run cfg s ks = loop_body cfg s0 ks0
          \<and> (\<forall>s' ks'. loop_body cfg s0 ks0 \<noteq> Proceed s' ks'))"
proof (induction cfg s ks rule: run.induct)
  case (1 cfg s ks)
  show ?case
  proof (cases "i s < int (length (input_songs cfg))")
    case False
    with "1.prems" show ?thesis
      by (intro exI [of _ s] exI [of _ ks]) (simp add: run_end)
  next
    case True
    show ?thesis
    proof (cases "\<exists>s' ks'. loop_body cfg s ks = Proceed s' ks'")
      case False
      with True "1.prems" show ?thesis
        by (intro exI [of _ s] exI [of _ ks]) (simp add: run_stop)
    next
      case True
      then obtain s' ks' where p: "loop_body cfg s ks = Proceed s' ks'" by blast
      have r: "reachable cfg s'"
        using "1.prems" \<open>i s < int (length (input_songs cfg))\<close> p by (rule reachable.pass)
      from "1.IH" [OF \<open>i s < int (length (input_songs cfg))\<close> p r]
      obtain s0 ks0 where "reachable cfg s0" "set ks0 \<subseteq> set ks'"
        "run cfg s' ks' = Proceed s0 ks0 \<and> \<not> i s0 < int (length (input_songs cfg))
        \<or> i s0 < int (length (input_songs cfg)) \<and> run cfg s' ks' = loop_body cfg s0 ks0
          \<and> (\<forall>s' ks'. loop_body cfg s0 ks0 \<noteq> Proceed s' ks')"
        by blast
      moreover have "set ks' \<subseteq> set ks" using p by (rule loop_body_keys)
      moreover have "run cfg s ks = run cfg s' ks'"
        using \<open>i s < int (length (input_songs cfg))\<close> p by (rule run_pass)
      ultimately show ?thesis
        by (intro exI [of _ s0] exI [of _ ks0]) auto
    qed
  qed
qed

text \<open>The invariant of the loop head.\<close>

lemma reachable_invariant:
  "reachable cfg s \<Longrightarrow>
     0 \<le> i s \<and> i s \<le> int (advances s) \<and> length (selected_songs s) \<le> advances s"
proof (induction rule: reachable.induct)
  case start
  show ?case by (simp add: initial_def)
next
  case (pass s ks s' ks')
  from loop_body_Proceed [OF pass.hyps(3)] pass.IH show ?case
    by (auto simp: stepped_back_def stepped_on_def recorded_def)
qed

lemma reachable_Crashed:
  assumes "reachable cfg s" "i s < int (length (input_songs cfg))"
    and c: "loop_body cfg s ks = Crashed s'"
  shows "Eof \<in> set ks
     \<or> (\<exists>e j. Entry e \<in> set (input_songs cfg) \<and> \<not> html cfg (dialog_text cfg e j))"
proof -
  from reachable_invariant [OF assms(1)] have "0 \<le> i s" by simp
  then have n: "nth_py (input_songs cfg) (i s) = Some (input_songs cfg ! nat (i s))"
    using assms(2) by (rule nth_py_nonneg)
  show ?thesis
  proof (cases "input_songs cfg ! nat (i s)")
    case Break
    with n c have "break_item cfg s ks = Crashed s'" by (simp add: loop_body_def)
    then have "Eof \<in> set ks" by (rule break_item_Crashed)
    then show ?thesis by simp
  next
    case (Entry e)
    with n c have "song_item cfg e s ks = Crashed s'" by (simp add: loop_body_def)
    from song_item_Crashed [OF this] have
      "Eof \<in> set ks \<or> (\<exists>j. \<not> html cfg (dialog_text cfg e j))" .
    moreover from n Entry have "Entry e \<in> set (input_songs cfg)"
      using nth_py_in_set [of "input_songs cfg" "i s" "Entry e"] by simp
    ultimately show ?thesis by blast
  qed
qed

text \<open>What a run from the start can end in.\<close>

lemma navigate_last:
  "\<exists>s0 ks0. reachable cfg s0 \<and> set ks0 \<subseteq> set ks \<and>
     (navigate cfg ks = Proceed s0 ks0 \<and> \<not> i s0 < int (length (input_songs cfg))
      \<or> i s0 < int (length (input_songs cfg)) \<and> navigate cfg ks = loop_body cfg s0 ks0
        \<and> (\<forall>s' ks'. loop_body cfg s0 ks0 \<noteq> Proceed s' ks'))"
  unfolding navigate_def by (rule run_last) (rule reachable.start)

lemma navigate_Proceed:
  assumes "navigate cfg ks = Proceed s ks'"
  shows "reachable cfg s \<and> \<not> i s < int (length (input_songs cfg))"
proof -
  from navigate_last [of cfg ks] obtain s0 ks0 where r: "reachable cfg s0"
    and c: "navigate cfg ks = Proceed s0 ks0 \<and> \<not> i s0 < int (length (input_songs cfg))
        \<or> navigate cfg ks = loop_body cfg s0 ks0
          \<and> (\<forall>s' ks'. loop_body cfg s0 ks0 \<noteq> Proceed s' ks')"
    by blast
  from c show ?thesis
  proof
    assume "navigate cfg ks = Proceed s0 ks0 \<and> \<not> i s0 < int (length (input_songs cfg))"
    with assms r show ?thesis by simp
  next
    assume a: "navigate cfg ks = loop_body cfg s0 ks0
          \<and> (\<forall>s' ks'. loop_body cfg s0 ks0 \<noteq> Proceed s' ks')"
    with assms have "loop_body cfg s0 ks0 = Proceed s ks'" by simp
    with a show ?thesis by blast
  qed
qed

lemma navigate_invariant:
  "0 \<le> i (state_of (navigate cfg ks))
   \<and> i (state_of (navigate cfg ks)) \<le> int (advances (state_of (navigate cfg ks)))
   \<and> length (selected_songs (state_of (navigate cfg ks)))
       \<le> Suc (advances (state_of (navigate cfg ks)))"
proof -
  from navigate_last [of cfg ks] obtain s0 ks0 where r: "reachable cfg s0"
    and c: "navigate cfg ks = Proceed s0 ks0
        \<or> navigate cfg ks = loop_body cfg s0 ks0
          \<and> (\<forall>s' ks'. loop_body cfg s0 ks0 \<noteq> Proceed s' ks')"
    by blast
  note inv = reachable_invariant [OF r]
  from c show ?thesis
  proof
    assume "navigate cfg ks = Proceed s0 ks0"
    with inv show ?thesis by simp
  next
    assume a: "navigate cfg ks = loop_body cfg s0 ks0
          \<and> (\<forall>s' ks'. loop_body cfg s0 ks0 \<noteq> Proceed s' ks')"
    then have "i (state_of (loop_body cfg s0 ks0)) = i s0
       \<and> advances (state_of (loop_body cfg s0 ks0)) = advances s0
       \<and> (selected_songs (state_of (loop_body cfg s0 ks0)) = selected_songs s0
          \<or> selected_songs (state_of (loop_body cfg s0 ks0))
              = selected_songs s0 @ [(''break'', None)])"
      by (intro loop_body_stops) auto
    with a inv show ?thesis by auto
  qed
qed

lemma navigate_Crashed:
  assumes c: "navigate cfg ks = Crashed s'"
  shows "Eof \<in> set ks
     \<or> (\<exists>e j. Entry e \<in> set (input_songs cfg) \<and> \<not> html cfg (dialog_text cfg e j))"
proof -
  from navigate_last [of cfg ks] c obtain s0 ks0 where r: "reachable cfg s0"
    and k: "set ks0 \<subseteq> set ks" and l: "i s0 < int (length (input_songs cfg))"
    and b: "loop_body cfg s0 ks0 = Crashed s'"
    by auto
  from reachable_Crashed [OF r l b] k show ?thesis by blast
qed

text \<open>
  The keys that choose "Go back": in the selection dialog, whose highlight starts on the
  last match, and in the break dialog, whose highlight starts on "Take a break", it is
  two steps down.
\<close>

lemma select_match_go_back_keys:
  assumes "\<forall>idx. acc (get_formatted_text st (select_choices ms) idx)"
  shows "select_match acc ms st (Down # Down # Enter # ks) = Answered (None, True) ks"
proof -
  let ?n = "int (length ms)"
  have "((?n - 1 + 1) mod (?n + 2) + 1) mod (?n + 2) = ?n + 1"
    by simp
  with assms show ?thesis
    by (simp add: select_match_def select_choices_def Let_def nth_py_def nth_append
        select_enter_def nat_add_distrib)
qed

lemma confirm_break_go_back_keys:
  "confirm_break (Down # Down # Enter # ks) = Answered (False, True) ks"
  by (simp add: confirm_break_def Let_def nth_py_def break_enter_def)

lemma go_back_at_start: "i s = 0 \<Longrightarrow> go_back s = s"
  by (simp add: go_back_def)

lemma run_go_backs_song:
  assumes e: "nth_py (input_songs cfg) 0 = Some (Entry e)"
    and ms: "find_matches (scorer cfg) e (available_songs cfg) 60 \<noteq> []"
    and sh: "\<forall>idx. html cfg (dialog_text cfg e idx)"
  shows "i s = 0 \<Longrightarrow>
     run cfg s (concat (replicate n [Enter, Down, Down, Enter])) =
       Blocked (s\<lparr>effects := effects s @ replicate (Suc n) (Announced e)\<rparr>)"
proof (induction n arbitrary: s)
  case 0
  from e have l: "0 < int (length (input_songs cfg))" by (rule nth_py_less)
  have "loop_body cfg s [] = Blocked (emit (Announced e) s)"
    using e 0 by (simp add: loop_body_def song_item_def)
  with l 0 show ?case by (simp add: run_stop emit_def)
next
  case (Suc n)
  from e have l: "0 < int (length (input_songs cfg))" by (rule nth_py_less)
  let ?ks = "concat (replicate n [Enter, Down, Down, Enter])"
  let ?s1 = "emit (Announced e) s"
  have "loop_body cfg s (Enter # Down # Down # Enter # ?ks) = Proceed (go_back ?s1) ?ks"
    using e ms sh Suc.prems
    by (intro song_go_back [of cfg s e _ "()" "Down # Down # Enter # ?ks" None])
      (simp_all add: select_match_go_back_keys dialog_text_def)
  moreover have "go_back ?s1 = ?s1" using Suc.prems by (simp add: go_back_at_start)
  ultimately have "run cfg s (Enter # Down # Down # Enter # ?ks) = run cfg ?s1 ?ks"
    using l Suc.prems by (simp add: run_pass)
  also have "\<dots> = Blocked (?s1\<lparr>effects := effects ?s1 @ replicate (Suc n) (Announced e)\<rparr>)"
    using Suc.prems by (intro Suc.IH) simp
  finally show ?case by (simp add: emit_def replicate_append_same)
qed

lemma run_go_backs_break:
  assumes e: "nth_py (input_songs cfg) 0 = Some Break" and u: "has_break_url cfg"
  shows "i s = 0 \<Longrightarrow>
     run cfg s (concat (replicate n [Down, Down, Enter])) =
       Blocked (s\<lparr>effects := effects s @ replicate (Suc n) Break_banner\<rparr>)"
proof (induction n arbitrary: s)
  case 0
  from e have l: "0 < int (length (input_songs cfg))" by (rule nth_py_less)
  have "loop_body cfg s [] = Blocked (emit Break_banner s)"
    using e u 0 by (simp add: loop_body_def break_item_def confirm_break_def)
  with l 0 show ?case by (simp add: run_stop emit_def)
next
  case (Suc n)
  from e have l: "0 < int (length (input_songs cfg))" by (rule nth_py_less)
  let ?ks = "concat (replicate n [Down, Down, Enter])"
  let ?s1 = "emit Break_banner s"
  have "loop_body cfg s (Down # Down # Enter # ?ks) = Proceed (go_back ?s1) ?ks"
    using e u Suc.prems
    by (intro break_go_back [where take_break = False])
      (simp_all add: confirm_break_go_back_keys)
  moreover have "go_back ?s1 = ?s1" using Suc.prems by (simp add: go_back_at_start)
  ultimately have "run cfg s (Down # Down # Enter # ?ks) = run cfg ?s1 ?ks"
    using l Suc.prems by (simp add: run_pass)
  also have "\<dots> = Blocked (?s1\<lparr>effects := effects ?s1 @ replicate (Suc n) Break_banner\<rparr>)"
    using Suc.prems by (intro Suc.IH) simp
  finally show ?case by (simp add: emit_def replicate_append_same)
qed

section \<open>Properties of the navigation loop\<close>

lemmas text_defs = without_ampersand_def dialog_text_def song_title_def
  get_formatted_text_def get_choice_text_def select_choices_def shortened_def str_int_def
  str_nat.simps marked_def cyan_def Let_def

lemmas eval_defs = navigate_def initial_def loop_body_def nth_py_def song_item_def
  break_item_def find_matches_def match_step_def search_string_def select_match_def
  select_enter_def confirm_break_def break_enter_def confirm_action_def has_break_url_def
  advance_def go_back_def emit_def append_selected_def run.simps text_defs

text \<open>
  C5. The cursor \<open>i\<close> is never negative: not at the loop head, and not in the state
  in which a run, on any keys, ends, waits or exits. A go-back, from the break dialog
  or from the selection dialog, sets it to \<open>max 0 (i - 1)\<close>. It is at most the
  number of advances made, so before any advance it is 0; in particular \<open>n\<close> go-backs
  in a row at the first item, a song (one whose selection dialog comes up, its text
  accepted by \<open>HTML\<close>) or a break, leave the program waiting at that item with the
  cursor at 0.
\<close>

theorem cursor_never_negative:
  "(reachable cfg s \<longrightarrow> 0 \<le> i s \<and> (advances s = 0 \<longrightarrow> i s = 0))
   \<and> 0 \<le> i (state_of (navigate cfg ks))
   \<and> (advances (state_of (navigate cfg ks)) = 0 \<longrightarrow> i (state_of (navigate cfg ks)) = 0)
   \<and> (nth_py (input_songs cfg) (i s) = Some Break \<and> has_break_url cfg
        \<and> confirm_break kb = Answered (tb, True) kb'
      \<longrightarrow> loop_body cfg s kb = Proceed (go_back (emit Break_banner s)) kb'
          \<and> i (go_back (emit Break_banner s)) = max 0 (i s - 1))
   \<and> (nth_py (input_songs cfg) (i s) = Some (Entry e) \<and> read_line kr = Answered u kr'
        \<and> find_matches (scorer cfg) e (available_songs cfg) 60 \<noteq> []
        \<and> select_match (html cfg) (find_matches (scorer cfg) e (available_songs cfg) 60)
         (song_title e) kr'
            = Answered (sel, True) kr''
      \<longrightarrow> loop_body cfg s kr = Proceed (go_back (emit (Announced e) s)) kr''
          \<and> i (go_back (emit (Announced e) s)) = max 0 (i s - 1))
   \<and> (nth_py (input_songs cfg) 0 = Some (Entry e)
        \<and> find_matches (scorer cfg) e (available_songs cfg) 60 \<noteq> []
        \<and> (\<forall>idx. html cfg (dialog_text cfg e idx))
      \<longrightarrow> navigate cfg (concat (replicate n [Enter, Down, Down, Enter]))
            = Blocked \<lparr>i = 0, selected_songs = [],
                effects = replicate (Suc n) (Announced e), advances = 0\<rparr>)
   \<and> (nth_py (input_songs cfg) 0 = Some Break \<and> has_break_url cfg
      \<longrightarrow> navigate cfg (concat (replicate n [Down, Down, Enter]))
            = Blocked \<lparr>i = 0, selected_songs = [],
                effects = replicate (Suc n) Break_banner, advances = 0\<rparr>)"
proof -
  have a: "reachable cfg s \<longrightarrow> 0 \<le> i s \<and> (advances s = 0 \<longrightarrow> i s = 0)"
    using reachable_invariant [of cfg s] by auto
  have b: "0 \<le> i (state_of (navigate cfg ks))
     \<and> (advances (state_of (navigate cfg ks)) = 0 \<longrightarrow> i (state_of (navigate cfg ks)) = 0)"
    using navigate_invariant [of cfg ks] by auto
  have c: "nth_py (input_songs cfg) (i s) = Some Break \<and> has_break_url cfg
        \<and> confirm_break kb = Answered (tb, True) kb'
      \<longrightarrow> loop_body cfg s kb = Proceed (go_back (emit Break_banner s)) kb'
          \<and> i (go_back (emit Break_banner s)) = max 0 (i s - 1)"
    by (simp add: break_go_back)
  have d: "nth_py (input_songs cfg) (i s) = Some (Entry e) \<and> read_line kr = Answered u kr'
        \<and> find_matches (scorer cfg) e (available_songs cfg) 60 \<noteq> []
        \<and> select_match (html cfg) (find_matches (scorer cfg) e (available_songs cfg) 60)
         (song_title e) kr'
            = Answered (sel, True) kr''
      \<longrightarrow> loop_body cfg s kr = Proceed (go_back (emit (Announced e) s)) kr''
          \<and> i (go_back (emit (Announced e) s)) = max 0 (i s - 1)"
    using song_go_back [of cfg s e kr u kr' sel kr''] by simp
  have f: "nth_py (input_songs cfg) 0 = Some (Entry e)
        \<and> find_matches (scorer cfg) e (available_songs cfg) 60 \<noteq> []
        \<and> (\<forall>idx. html cfg (dialog_text cfg e idx))
      \<longrightarrow> navigate cfg (concat (replicate n [Enter, Down, Down, Enter]))
            = Blocked \<lparr>i = 0, selected_songs = [],
                effects = replicate (Suc n) (Announced e), advances = 0\<rparr>"
    using run_go_backs_song [of cfg e initial n]
    by (simp add: navigate_def initial_def)
  have g: "nth_py (input_songs cfg) 0 = Some Break \<and> has_break_url cfg
      \<longrightarrow> navigate cfg (concat (replicate n [Down, Down, Enter]))
            = Blocked \<lparr>i = 0, selected_songs = [],
                effects = replicate (Suc n) Break_banner, advances = 0\<rparr>"
    using run_go_backs_break [of cfg initial n]
    by (simp add: navigate_def initial_def)
  from a b c d f g show ?thesis by blast
qed

theorem cursor_never_negative_witness:
  "navigate \<lparr>html = without_ampersand,
       scorer = (\<lambda>a b. if a = b then 100 else 0), break_url = None,
       input_songs = [Entry (InputSong ''A'' '''' ''1'' ''La'')],
       available_songs = [(''A - '', Song ''A'' '''' ''/a'')]\<rparr>
     (concat (replicate 2 [Enter, Down, Down, Enter]))
   = Blocked \<lparr>i = 0, selected_songs = [],
       effects = replicate 3 (Announced (InputSong ''A'' '''' ''1'' ''La'')), advances = 0\<rparr>
   \<and> advances (state_of (navigate \<lparr>html = without_ampersand,
       scorer = (\<lambda>a b. if a = b then 100 else 0),
       break_url = None, input_songs = [Entry (InputSong ''A'' '''' ''1'' ''La'')],
       available_songs = [(''A - '', Song ''A'' '''' ''/a'')]\<rparr>
       [Enter, Down, Down, Enter])) = 0
   \<and> i (state_of (navigate \<lparr>html = without_ampersand,
       scorer = (\<lambda>a b. if a = b then 100 else 0),
       break_url = None, input_songs = [Entry (InputSong ''A'' '''' ''1'' ''La'')],
       available_songs = [(''A - '', Song ''A'' '''' ''/a'')]\<rparr>
       [Enter, Down, Down, Enter])) = 0"
proof -
  let ?cfg = "\<lparr>html = without_ampersand,
       scorer = (\<lambda>a b. if a = b then 100 else 0), break_url = None,
       input_songs = [Entry (InputSong ''A'' '''' ''1'' ''La'')],
       available_songs = [(''A - '', Song ''A'' '''' ''/a'')]\<rparr>"
  have h1: "nth_py (input_songs ?cfg) 0 = Some (Entry (InputSong ''A'' '''' ''1'' ''La''))"
    by (simp add: nth_py_def)
  have h2: "find_matches (scorer ?cfg) (InputSong ''A'' '''' ''1'' ''La'')
      (available_songs ?cfg) 60 \<noteq> []"
    by (simp add: find_matches_def match_step_def search_string_def)
  have h3: "advances (state_of (navigate ?cfg [Enter, Down, Down, Enter])) = 0"
    by (simp add: eval_defs)
  have h4: "\<forall>idx. html ?cfg (dialog_text ?cfg (InputSong ''A'' '''' ''1'' ''La'') idx)"
    by (simp add: text_defs find_matches_def match_step_def search_string_def)
  from h1 h2 h3 h4
    cursor_never_negative [where cfg = ?cfg and e = "InputSong ''A'' '''' ''1'' ''La''"
      and n = 2 and ks = "[Enter, Down, Down, Enter]"]
  show ?thesis by (simp add: numeral_2_eq_2 numeral_3_eq_3)
qed

lemma loop_body_go_back_or_skip:
  "(nth_py (input_songs cfg) (i s) = Some Break \<and> has_break_url cfg
      \<and> confirm_break kb = Answered (tb, True) kb'
    \<longrightarrow> (\<exists>s1. loop_body cfg s kb = Proceed s1 kb' \<and> stepped_back s s1))
   \<and> (nth_py (input_songs cfg) (i s) = Some Break \<and> has_break_url cfg
      \<and> confirm_break kb = Answered (False, False) kb'
    \<longrightarrow> (\<exists>s1. loop_body cfg s kb = Proceed s1 kb' \<and> stepped_on s s1))
   \<and> (nth_py (input_songs cfg) (i s) = Some (Entry e) \<and> read_line kr = Answered u kr'
      \<and> find_matches (scorer cfg) e (available_songs cfg) 60 \<noteq> []
      \<and> select_match (html cfg) (find_matches (scorer cfg) e (available_songs cfg) 60)
         (song_title e) kr'
          = Answered (sel, True) kr''
    \<longrightarrow> (\<exists>s1. loop_body cfg s kr = Proceed s1 kr'' \<and> stepped_back s s1))
   \<and> (nth_py (input_songs cfg) (i s) = Some (Entry e) \<and> read_line kr = Answered u kr'
      \<and> find_matches (scorer cfg) e (available_songs cfg) 60 \<noteq> []
      \<and> select_match (html cfg) (find_matches (scorer cfg) e (available_songs cfg) 60)
         (song_title e) kr'
          = Answered (None, False) kr''
    \<longrightarrow> (\<exists>s1. loop_body cfg s kr = Proceed s1 kr'' \<and> stepped_on s s1))
   \<and> (nth_py (input_songs cfg) (i s) = Some (Entry e) \<and> read_line kr = Answered u kr'
      \<and> find_matches (scorer cfg) e (available_songs cfg) 60 = []
      \<and> confirm_action kr' = Answered True kr''
    \<longrightarrow> (\<exists>s1. loop_body cfg s kr = Proceed s1 kr'' \<and> stepped_on s s1))"
  using break_go_back [of cfg s kb tb kb'] break_skip [of cfg s kb kb']
    song_go_back [of cfg s e kr u kr' sel kr''] song_skip [of cfg s e kr u kr' kr'']
    no_match_skip [of cfg s e kr u kr' kr'']
  by (simp add: stepped_back_def stepped_on_def)

text \<open>
  C6 (as amended). Whenever the loop condition is evaluated, and when the loop has come
  to its end, there are at most as many records as advances of the cursor. A pass that
  comes back to the loop head has stepped back, stepped on without a record, or stepped
  on with one record appended; a go-back (break or selection dialog) and a skip (break
  dialog, selection dialog, confirmation that no match was found) append nothing. While
  the program waits for enter after a break was taken, or exits there, the record of the
  break is already appended and the cursor not yet advanced: in the state a run ends
  in, the records exceed the advances by one at most.
\<close>

theorem records_bounded_by_advances:
  "(reachable cfg s \<longrightarrow> length (selected_songs s) \<le> advances s)
   \<and> (navigate cfg ks = Proceed s' ks' \<longrightarrow> length (selected_songs s') \<le> advances s')
   \<and> length (selected_songs (state_of (navigate cfg ks)))
       \<le> Suc (advances (state_of (navigate cfg ks)))
   \<and> (loop_body cfg s kp = Proceed s1 kp'
      \<longrightarrow> stepped_back s s1 \<or> stepped_on s s1 \<or> recorded s s1)
   \<and> (nth_py (input_songs cfg) (i s) = Some Break \<and> has_break_url cfg
      \<and> confirm_break kb = Answered (tb, True) kb'
    \<longrightarrow> (\<exists>s1. loop_body cfg s kb = Proceed s1 kb' \<and> stepped_back s s1))
   \<and> (nth_py (input_songs cfg) (i s) = Some Break \<and> has_break_url cfg
      \<and> confirm_break kb = Answered (False, False) kb'
    \<longrightarrow> (\<exists>s1. loop_body cfg s kb = Proceed s1 kb' \<and> stepped_on s s1))
   \<and> (nth_py (input_songs cfg) (i s) = Some (Entry e) \<and> read_line kr = Answered u kr'
      \<and> find_matches (scorer cfg) e (available_songs cfg) 60 \<noteq> []
      \<and> select_match (html cfg) (find_matches (scorer cfg) e (available_songs cfg) 60)
         (song_title e) kr'
          = Answered (sel, True) kr''
    \<longrightarrow> (\<exists>s1. loop_body cfg s kr = Proceed s1 kr'' \<and> stepped_back s s1))
   \<and> (nth_py (input_songs cfg) (i s) = Some (Entry e) \<and> read_line kr = Answered u kr'
      \<and> find_matches (scorer cfg) e (available_songs cfg) 60 \<noteq> []
      \<and> select_match (html cfg) (find_matches (scorer cfg) e (available_songs cfg) 60)
         (song_title e) kr'
          = Answered (None, False) kr''
    \<longrightarrow> (\<exists>s1. loop_body cfg s kr = Proceed s1 kr'' \<and> stepped_on s s1))
   \<and> (nth_py (input_songs cfg) (i s) = Some (Entry e) \<and> read_line kr = Answered u kr'
      \<and> find_matches (scorer cfg) e (available_songs cfg) 60 = []
      \<and> confirm_action kr' = Answered True kr''
    \<longrightarrow> (\<exists>s1. loop_body cfg s kr = Proceed s1 kr'' \<and> stepped_on s s1))"
proof -
  have a: "reachable cfg s \<longrightarrow> length (selected_songs s) \<le> advances s"
    using reachable_invariant [of cfg s] by simp
  have b: "navigate cfg ks = Proceed s' ks' \<longrightarrow> length (selected_songs s') \<le> advances s'"
    using navigate_Proceed [of cfg ks s' ks'] reachable_invariant [of cfg s'] by simp
  have c: "length (selected_songs (state_of (navigate cfg ks)))
       \<le> Suc (advances (state_of (navigate cfg ks)))"
    using navigate_invariant [of cfg ks] by simp
  have d: "loop_body cfg s kp = Proceed s1 kp'
      \<longrightarrow> stepped_back s s1 \<or> stepped_on s s1 \<or> recorded s s1"
    using loop_body_Proceed [of cfg s kp s1 kp'] by simp
  from a b c d loop_body_go_back_or_skip [of cfg s kb tb kb' e kr u kr' sel kr'']
  show ?thesis by (elim conjE, intro conjI) assumption+
qed

theorem records_bounded_by_advances_witness:
  "navigate \<lparr>html = without_ampersand,
       scorer = (\<lambda>a b. if a = b then 100 else 0), break_url = Some ''/break'',
       input_songs = [Break, Entry (InputSong ''A'' '''' ''1'' ''La'')],
       available_songs = [(''A - '', Song ''A'' '''' ''/a'')]\<rparr>
     [Down, Enter, Enter, Enter]
   = Proceed \<lparr>i = 2,
       selected_songs = [(''song'', Some (Match ''A - '' (Song ''A'' '''' ''/a'') 100))],
       effects = [Break_banner, Announced (InputSong ''A'' '''' ''1'' ''La''),
         Opened_song ''/a''],
       advances = 2\<rparr> []
   \<and> length [(''song'', Some (Match ''A - '' (Song ''A'' '''' ''/a'') 100))] \<le> (2::nat)"
proof -
  let ?cfg = "\<lparr>html = without_ampersand,
       scorer = (\<lambda>a b. if a = b then 100 else 0), break_url = Some ''/break'',
       input_songs = [Break, Entry (InputSong ''A'' '''' ''1'' ''La'')],
       available_songs = [(''A - '', Song ''A'' '''' ''/a'')]\<rparr>"
  let ?s = "\<lparr>i = 2,
       selected_songs = [(''song'', Some (Match ''A - '' (Song ''A'' '''' ''/a'') 100))],
       effects = [Break_banner, Announced (InputSong ''A'' '''' ''1'' ''La''),
         Opened_song ''/a''],
       advances = 2\<rparr>"
  have h: "navigate ?cfg [Down, Enter, Enter, Enter] = Proceed ?s []"
    by (simp add: eval_defs)
  from h records_bounded_by_advances [where cfg = ?cfg and ks = "[Down, Enter, Enter, Enter]"
      and s' = ?s and ks' = "[]"]
  show ?thesis by simp
qed

theorem records_exceed_advances_counterexample:
  "navigate \<lparr>html = without_ampersand,
       scorer = (\<lambda>a b. if a = b then 100 else 0), break_url = Some ''/break'',
       input_songs = [Break], available_songs = [(''A - '', Song ''A'' '''' ''/a'')]\<rparr>
     [Enter, CtrlC]
   = Exited 0 \<lparr>i = 0, selected_songs = [(''break'', None)],
       effects = [Break_banner, Opened_break], advances = 0\<rparr>
   \<and> advances (state_of (navigate \<lparr>html = without_ampersand,
       scorer = (\<lambda>a b. if a = b then 100 else 0),
       break_url = Some ''/break'', input_songs = [Break],
       available_songs = [(''A - '', Song ''A'' '''' ''/a'')]\<rparr> [Enter, CtrlC]))
     < length (selected_songs (state_of (navigate \<lparr>html = without_ampersand,
       scorer = (\<lambda>a b. if a = b then 100 else 0),
       break_url = Some ''/break'', input_songs = [Break],
       available_songs = [(''A - '', Song ''A'' '''' ''/a'')]\<rparr> [Enter, CtrlC])))"
  by (simp add: eval_defs)

lemma run_appends: "\<exists>rs. selected_songs (state_of (run cfg s ks)) = selected_songs s @ rs"
proof (induction cfg s ks rule: run.induct)
  case (1 cfg s ks)
  show ?case
  proof (cases "i s < int (length (input_songs cfg))")
    case False
    then show ?thesis by (simp add: run_end)
  next
    case True
    show ?thesis
    proof (cases "\<exists>s' ks'. loop_body cfg s ks = Proceed s' ks'")
      case False
      with True have "run cfg s ks = loop_body cfg s ks" by (simp add: run_stop)
      moreover have "selected_songs (state_of (loop_body cfg s ks)) = selected_songs s
          \<or> selected_songs (state_of (loop_body cfg s ks))
              = selected_songs s @ [(''break'', None)]"
        using False loop_body_stops [of cfg s ks "loop_body cfg s ks"] by simp
      ultimately show ?thesis by auto
    next
      case p: True
      then obtain s' ks' where p: "loop_body cfg s ks = Proceed s' ks'" by blast
      from "1.IH" [OF True p] obtain rs
        where "selected_songs (state_of (run cfg s' ks')) = selected_songs s' @ rs" by blast
      moreover have "run cfg s ks = run cfg s' ks'" using True p by (rule run_pass)
      moreover have "\<exists>qs. selected_songs s' = selected_songs s @ qs"
        using loop_body_Proceed [OF p]
        by (auto simp: stepped_back_def stepped_on_def recorded_def)
      ultimately show ?thesis by auto
    qed
  qed
qed

lemma go_back_then_pick:
  assumes "i s = 2"
    and "nth_py (input_songs cfg) 2 = Some (Entry e)"
    and "nth_py (input_songs cfg) 1 = Some (Entry f)"
    and "find_matches (scorer cfg) e (available_songs cfg) 60 \<noteq> []"
    and "find_matches (scorer cfg) f (available_songs cfg) 60 \<noteq> []"
    and "read_line ka = Answered u kb"
    and "select_match (html cfg) (find_matches (scorer cfg) e (available_songs cfg) 60)
         (song_title e) kb
           = Answered (sel, True) kc"
    and "read_line kc = Answered v kd"
    and "select_match (html cfg) (find_matches (scorer cfg) f (available_songs cfg) 60)
         (song_title f) kd
           = Answered (Some m, False) ke"
  shows "\<exists>s2. run cfg s ka = run cfg s2 ke \<and> i s2 = 2
           \<and> selected_songs s2 = selected_songs s @ [(''song'', Some m)]"
proof -
  let ?s1 = "go_back (emit (Announced e) s)"
  let ?s2 = "advance (emit (Opened_song (href (song m)))
               (append_selected (''song'', Some m) (emit (Announced f) ?s1)))"
  have l2: "i s < int (length (input_songs cfg))"
    using assms(1,2) nth_py_less [of "input_songs cfg" 2] by simp
  have p1: "loop_body cfg s ka = Proceed ?s1 kc"
    using assms by (intro song_go_back [of cfg s e ka u kb sel kc]) simp_all
  have i1: "i ?s1 = 1" using assms(1) by simp
  have l1: "i ?s1 < int (length (input_songs cfg))" using l2 assms(1) i1 by simp
  have p2: "loop_body cfg ?s1 kc = Proceed ?s2 ke"
    using assms i1 by (intro song_pick [of cfg ?s1 f kc v kd m ke]) simp_all
  have "run cfg s ka = run cfg ?s1 kc" using l2 p1 by (rule run_pass)
  also have "\<dots> = run cfg ?s2 ke" using l1 p2 by (rule run_pass)
  finally have "run cfg s ka = run cfg ?s2 ke" .
  moreover have "i ?s2 = 2" using i1 by simp
  moreover have "selected_songs ?s2 = selected_songs s @ [(''song'', Some m)]" by simp
  ultimately show ?thesis by blast
qed

text \<open>
  C1 (as amended). A go-back, from the break dialog or from the selection dialog,
  leaves the list of records as it is, and over a run the list only grows: what it held
  at the start is a prefix of what it holds in the state the run ends in. After a
  go-back at index 2 and a match chosen at index 1, the list is the list from before the
  go-back with the new record appended; a record made for index 1 earlier is still
  there.
\<close>

theorem go_back_keeps_records:
  "(nth_py (input_songs cfg) (i s) = Some Break \<and> has_break_url cfg
      \<and> confirm_break kp = Answered (tb, True) kq
    \<longrightarrow> (\<exists>s1. loop_body cfg s kp = Proceed s1 kq \<and> selected_songs s1 = selected_songs s))
   \<and> (nth_py (input_songs cfg) (i s) = Some (Entry e) \<and> read_line ka = Answered u kb
      \<and> find_matches (scorer cfg) e (available_songs cfg) 60 \<noteq> []
      \<and> select_match (html cfg) (find_matches (scorer cfg) e (available_songs cfg) 60)
         (song_title e) kb
          = Answered (sel, True) kc
    \<longrightarrow> (\<exists>s1. loop_body cfg s ka = Proceed s1 kc \<and> selected_songs s1 = selected_songs s))
   \<and> (\<exists>rs. selected_songs (state_of (run cfg s ks)) = selected_songs s @ rs)
   \<and> (i s = 2 \<and> nth_py (input_songs cfg) 2 = Some (Entry e)
      \<and> nth_py (input_songs cfg) 1 = Some (Entry f)
      \<and> find_matches (scorer cfg) e (available_songs cfg) 60 \<noteq> []
      \<and> find_matches (scorer cfg) f (available_songs cfg) 60 \<noteq> []
      \<and> read_line ka = Answered u kb
      \<and> select_match (html cfg) (find_matches (scorer cfg) e (available_songs cfg) 60)
         (song_title e) kb
          = Answered (sel, True) kc
      \<and> read_line kc = Answered v kd
      \<and> select_match (html cfg) (find_matches (scorer cfg) f (available_songs cfg) 60)
         (song_title f) kd
          = Answered (Some m, False) ke
    \<longrightarrow> (\<exists>s2. run cfg s ka = run cfg s2 ke \<and> i s2 = 2
           \<and> selected_songs s2 = selected_songs s @ [(''song'', Some m)]))"
proof -
  have a: "nth_py (input_songs cfg) (i s) = Some Break \<and> has_break_url cfg
      \<and> confirm_break kp = Answered (tb, True) kq
    \<longrightarrow> (\<exists>s1. loop_body cfg s kp = Proceed s1 kq \<and> selected_songs s1 = selected_songs s)"
    using break_go_back [of cfg s kp tb kq] by simp
  have b: "nth_py (input_songs cfg) (i s) = Some (Entry e) \<and> read_line ka = Answered u kb
      \<and> find_matches (scorer cfg) e (available_songs cfg) 60 \<noteq> []
      \<and> select_match (html cfg) (find_matches (scorer cfg) e (available_songs cfg) 60)
         (song_title e) kb
          = Answered (sel, True) kc
    \<longrightarrow> (\<exists>s1. loop_body cfg s ka = Proceed s1 kc \<and> selected_songs s1 = selected_songs s)"
    using song_go_back [of cfg s e ka u kb sel kc] by simp
  have c: "\<exists>rs. selected_songs (state_of (run cfg s ks)) = selected_songs s @ rs"
    by (rule run_appends)
  have d: "i s = 2 \<and> nth_py (input_songs cfg) 2 = Some (Entry e)
      \<and> nth_py (input_songs cfg) 1 = Some (Entry f)
      \<and> find_matches (scorer cfg) e (available_songs cfg) 60 \<noteq> []
      \<and> find_matches (scorer cfg) f (available_songs cfg) 60 \<noteq> []
      \<and> read_line ka = Answered u kb
      \<and> select_match (html cfg) (find_matches (scorer cfg) e (available_songs cfg) 60)
         (song_title e) kb
          = Answered (sel, True) kc
      \<and> read_line kc = Answered v kd
      \<and> select_match (html cfg) (find_matches (scorer cfg) f (available_songs cfg) 60)
         (song_title f) kd
          = Answered (Some m, False) ke
    \<longrightarrow> (\<exists>s2. run cfg s ka = run cfg s2 ke \<and> i s2 = 2
           \<and> selected_songs s2 = selected_songs s @ [(''song'', Some m)])"
    using go_back_then_pick [of s cfg e f ka u kb sel kc v kd m ke] by blast
  from a b c d show ?thesis by (intro conjI) assumption+
qed

theorem go_back_keeps_records_witness:
  "selected_songs (state_of (run
      \<lparr>html = without_ampersand,
       scorer = (\<lambda>a b. if a = b then 100 else 0), break_url = None,
        input_songs = [Entry (InputSong ''A'' '''' ''1'' ''La''),
          Entry (InputSong ''B'' '''' ''2'' ''Lb''), Entry (InputSong ''C'' '''' ''3'' ''Lc'')],
        available_songs = [(''A - '', Song ''A'' '''' ''/a''),
          (''B - '', Song ''B'' '''' ''/b''), (''C - '', Song ''C'' '''' ''/c'')]\<rparr>
      \<lparr>i = 2, selected_songs =
          [(''song'', Some (Match ''A - '' (Song ''A'' '''' ''/a'') 100)),
           (''song'', Some (Match ''B - '' (Song ''B'' '''' ''/b'') 100))],
        effects = [], advances = 2\<rparr>
      [Enter, Down, Down, Enter, Enter, Enter]))
   = [(''song'', Some (Match ''A - '' (Song ''A'' '''' ''/a'') 100)),
      (''song'', Some (Match ''B - '' (Song ''B'' '''' ''/b'') 100)),
      (''song'', Some (Match ''B - '' (Song ''B'' '''' ''/b'') 100))]"
  using go_back_keeps_records [where cfg = "\<lparr>html = without_ampersand,
       scorer = (\<lambda>a b. if a = b then 100 else 0),
        break_url = None,
        input_songs = [Entry (InputSong ''A'' '''' ''1'' ''La''),
          Entry (InputSong ''B'' '''' ''2'' ''Lb''), Entry (InputSong ''C'' '''' ''3'' ''Lc'')],
        available_songs = [(''A - '', Song ''A'' '''' ''/a''),
          (''B - '', Song ''B'' '''' ''/b''), (''C - '', Song ''C'' '''' ''/c'')]\<rparr>"
      and s = "\<lparr>i = 2, selected_songs =
          [(''song'', Some (Match ''A - '' (Song ''A'' '''' ''/a'') 100)),
           (''song'', Some (Match ''B - '' (Song ''B'' '''' ''/b'') 100))],
        effects = [], advances = 2\<rparr>"
      and ks = "[Enter, Down, Down, Enter, Enter, Enter]"]
  by (simp add: eval_defs)

theorem go_back_discards_record_counterexample:
  "navigate \<lparr>html = without_ampersand,
       scorer = (\<lambda>a b. if a = b then 100 else 0), break_url = None,
       input_songs = [Entry (InputSong ''A'' '''' ''1'' ''La''),
         Entry (InputSong ''B'' '''' ''2'' ''Lb''), Entry (InputSong ''C'' '''' ''3'' ''Lc'')],
       available_songs = [(''A - '', Song ''A'' '''' ''/a''),
         (''B - '', Song ''B'' '''' ''/b''), (''C - '', Song ''C'' '''' ''/c'')]\<rparr>
     [Enter, Enter, Enter, Enter, Enter, Down, Down, Enter, Enter, Enter, Enter, Enter]
   = Proceed \<lparr>i = 3,
       selected_songs =
         [(''song'', Some (Match ''A - '' (Song ''A'' '''' ''/a'') 100)),
          (''song'', Some (Match ''B - '' (Song ''B'' '''' ''/b'') 100)),
          (''song'', Some (Match ''B - '' (Song ''B'' '''' ''/b'') 100)),
          (''song'', Some (Match ''C - '' (Song ''C'' '''' ''/c'') 100))],
       effects =
         [Announced (InputSong ''A'' '''' ''1'' ''La''), Opened_song ''/a'',
          Announced (InputSong ''B'' '''' ''2'' ''Lb''), Opened_song ''/b'',
          Announced (InputSong ''C'' '''' ''3'' ''Lc''),
          Announced (InputSong ''B'' '''' ''2'' ''Lb''), Opened_song ''/b'',
          Announced (InputSong ''C'' '''' ''3'' ''Lc''), Opened_song ''/c''],
       advances = 4\<rparr> []"
  by (simp add: eval_defs)

lemma song_item_announces:
  "\<exists>es. effects (state_of (song_item cfg e s ks)) = effects s @ Announced e # es"
proof (cases "read_line ks")
  case (Answered u ks1)
  let ?ms = "find_matches (scorer cfg) e (available_songs cfg) 60"
  show ?thesis
  proof (cases "?ms = []")
    case True
    with Answered show ?thesis
      by (cases "confirm_action ks1") (simp_all add: song_item_def Let_def)
  next
    case False
    with Answered show ?thesis
      by (cases "select_match (html cfg) ?ms (song_title e) ks1")
        (auto simp: song_item_def Let_def split: option.splits)
  qed
qed (simp_all add: song_item_def Let_def)

text \<open>
  C2. With no break URL and a break at index \<open>k\<close>, a go-back at the song of index
  \<open>k + 1\<close> sets the cursor to \<open>k\<close>; the next pass finds the break, asks nothing, uses
  no key, has no effect and advances the cursor to \<open>k + 1\<close> again. So whatever keys
  follow, the next thing the program does is to announce the song of index \<open>k + 1\<close>
  once more: the operator is not taken to the item of index \<open>k - 1\<close>.
\<close>

theorem go_back_onto_break_without_url:
  assumes "\<not> has_break_url cfg" and "0 \<le> k" and "i s = k + 1"
    and "nth_py (input_songs cfg) k = Some Break"
    and "nth_py (input_songs cfg) (k + 1) = Some (Entry e)"
    and "find_matches (scorer cfg) e (available_songs cfg) 60 \<noteq> []"
    and "read_line ka = Answered u kb"
    and "select_match (html cfg) (find_matches (scorer cfg) e (available_songs cfg) 60)
         (song_title e) kb
           = Answered (sel, True) kc"
  shows "loop_body cfg s ka = Proceed (go_back (emit (Announced e) s)) kc
     \<and> i (go_back (emit (Announced e) s)) = k
     \<and> loop_body cfg (go_back (emit (Announced e) s)) kc
         = Proceed (advance (go_back (emit (Announced e) s))) kc
     \<and> i (advance (go_back (emit (Announced e) s))) = k + 1
     \<and> effects (advance (go_back (emit (Announced e) s))) = effects s @ [Announced e]
     \<and> run cfg s ka = run cfg (advance (go_back (emit (Announced e) s))) kc
     \<and> (\<exists>es. effects (state_of (loop_body cfg (advance (go_back (emit (Announced e) s))) kc))
           = effects s @ [Announced e] @ Announced e # es)"
proof -
  let ?s1 = "go_back (emit (Announced e) s)"
  let ?s2 = "advance ?s1"
  have l: "i s < int (length (input_songs cfg))"
    using assms(3,5) nth_py_less [of "input_songs cfg" "k + 1"] by simp
  have p1: "loop_body cfg s ka = Proceed ?s1 kc"
    using assms by (intro song_go_back [of cfg s e ka u kb sel kc]) simp_all
  have i1: "i ?s1 = k" using assms(2,3) by simp
  have p2: "loop_body cfg ?s1 kc = Proceed ?s2 kc"
    using assms(1,4) i1 by (intro break_without_url) simp_all
  have i2: "i ?s2 = k + 1" using i1 by simp
  have l1: "i ?s1 < int (length (input_songs cfg))" using l i1 assms(3) by simp
  have "run cfg s ka = run cfg ?s1 kc" using l p1 by (rule run_pass)
  also have "\<dots> = run cfg ?s2 kc" using l1 p2 by (rule run_pass)
  finally have r: "run cfg s ka = run cfg ?s2 kc" .
  have "loop_body cfg ?s2 kc = song_item cfg e ?s2 kc"
    using assms(5) i2 by (simp add: loop_body_def)
  with song_item_announces [of cfg e ?s2 kc]
  have n: "\<exists>es. effects (state_of (loop_body cfg ?s2 kc))
           = effects s @ [Announced e] @ Announced e # es"
    by simp
  from p1 i1 p2 i2 r n show ?thesis by simp
qed

theorem go_back_onto_break_without_url_witness:
  "navigate \<lparr>html = without_ampersand,
       scorer = (\<lambda>a b. if a = b then 100 else 0), break_url = None,
       input_songs = [Entry (InputSong ''A'' '''' ''1'' ''La''), Break,
         Entry (InputSong ''B'' '''' ''2'' ''Lb'')],
       available_songs = [(''A - '', Song ''A'' '''' ''/a''),
         (''B - '', Song ''B'' '''' ''/b'')]\<rparr>
     [Enter, Enter, Enter, Down, Down, Enter]
   = Blocked \<lparr>i = 2,
       selected_songs = [(''song'', Some (Match ''A - '' (Song ''A'' '''' ''/a'') 100))],
       effects = [Announced (InputSong ''A'' '''' ''1'' ''La''), Opened_song ''/a'',
         Announced (InputSong ''B'' '''' ''2'' ''Lb''),
         Announced (InputSong ''B'' '''' ''2'' ''Lb'')],
       advances = 3\<rparr>
   \<and> run \<lparr>html = without_ampersand,
       scorer = (\<lambda>a b. if a = b then 100 else 0), break_url = None,
       input_songs = [Entry (InputSong ''A'' '''' ''1'' ''La''), Break,
         Entry (InputSong ''B'' '''' ''2'' ''Lb'')],
       available_songs = [(''A - '', Song ''A'' '''' ''/a''),
         (''B - '', Song ''B'' '''' ''/b'')]\<rparr>
       \<lparr>i = 2,
         selected_songs = [(''song'', Some (Match ''A - '' (Song ''A'' '''' ''/a'') 100))],
         effects = [Announced (InputSong ''A'' '''' ''1'' ''La''), Opened_song ''/a''],
         advances = 2\<rparr>
       [Enter, Down, Down, Enter]
     = run \<lparr>html = without_ampersand,
       scorer = (\<lambda>a b. if a = b then 100 else 0), break_url = None,
       input_songs = [Entry (InputSong ''A'' '''' ''1'' ''La''), Break,
         Entry (InputSong ''B'' '''' ''2'' ''Lb'')],
       available_songs = [(''A - '', Song ''A'' '''' ''/a''),
         (''B - '', Song ''B'' '''' ''/b'')]\<rparr>
       \<lparr>i = 2,
         selected_songs = [(''song'', Some (Match ''A - '' (Song ''A'' '''' ''/a'') 100))],
         effects = [Announced (InputSong ''A'' '''' ''1'' ''La''), Opened_song ''/a'',
           Announced (InputSong ''B'' '''' ''2'' ''Lb'')],
         advances = 3\<rparr>
       []"
proof -
  let ?cfg = "\<lparr>html = without_ampersand,
       scorer = (\<lambda>a b. if a = b then 100 else 0), break_url = None,
       input_songs = [Entry (InputSong ''A'' '''' ''1'' ''La''), Break,
         Entry (InputSong ''B'' '''' ''2'' ''Lb'')],
       available_songs = [(''A - '', Song ''A'' '''' ''/a''),
         (''B - '', Song ''B'' '''' ''/b'')]\<rparr>"
  let ?s = "\<lparr>i = 2,
         selected_songs = [(''song'', Some (Match ''A - '' (Song ''A'' '''' ''/a'') 100))],
         effects = [Announced (InputSong ''A'' '''' ''1'' ''La''), Opened_song ''/a''],
         advances = 2\<rparr>"
  let ?e = "InputSong ''B'' '''' ''2'' ''Lb''"
  have h1: "\<not> has_break_url ?cfg" by (simp add: has_break_url_def)
  have h2: "(0::int) \<le> 1" by simp
  have h3: "i ?s = 1 + 1" by simp
  have h4: "nth_py (input_songs ?cfg) 1 = Some Break" by (simp add: nth_py_def)
  have h5: "nth_py (input_songs ?cfg) (1 + 1) = Some (Entry ?e)" by (simp add: nth_py_def)
  have h6: "find_matches (scorer ?cfg) ?e (available_songs ?cfg) 60 \<noteq> []"
    by (simp add: find_matches_def match_step_def search_string_def)
  have h7: "read_line [Enter, Down, Down, Enter] = Answered () [Down, Down, Enter]" by simp
  have h8: "select_match (html ?cfg) (find_matches (scorer ?cfg) ?e (available_songs ?cfg) 60)
         (song_title ?e)
      [Down, Down, Enter] = Answered (None, True) []"
    by (rule select_match_go_back_keys)
      (simp add: text_defs find_matches_def match_step_def search_string_def)
  have n: "navigate ?cfg [Enter, Enter, Enter, Down, Down, Enter]
   = Blocked \<lparr>i = 2,
       selected_songs = [(''song'', Some (Match ''A - '' (Song ''A'' '''' ''/a'') 100))],
       effects = [Announced (InputSong ''A'' '''' ''1'' ''La''), Opened_song ''/a'',
         Announced (InputSong ''B'' '''' ''2'' ''Lb''),
         Announced (InputSong ''B'' '''' ''2'' ''Lb'')],
       advances = 3\<rparr>"
    by (simp add: eval_defs)
  from go_back_onto_break_without_url [OF h1 h2 h3 h4 h5 h6 h7 h8]
  have "run ?cfg ?s [Enter, Down, Down, Enter]
      = run ?cfg (advance (go_back (emit (Announced ?e) ?s))) []"
    by blast
  with n show ?thesis by (simp add: advance_def go_back_def emit_def)
qed

text \<open>
  C7. With no break URL, the setlist \<open>[A, Break, B]\<close>, no go-back and a match chosen
  at each song, the loop ends with exactly two records, that of the match chosen for
  \<open>A\<close> and then that of the match chosen for \<open>B\<close>. The break leaves no trace: no
  banner, no page opened, no record, and the keys left by the first selection are the
  keys read for \<open>B\<close>.
\<close>

theorem break_without_url_invisible:
  assumes "\<not> has_break_url cfg"
    and "input_songs cfg = [Entry a, Break, Entry b]"
    and "find_matches (scorer cfg) a (available_songs cfg) 60 \<noteq> []"
    and "find_matches (scorer cfg) b (available_songs cfg) 60 \<noteq> []"
    and "read_line ka = Answered u kb"
    and "select_match (html cfg) (find_matches (scorer cfg) a (available_songs cfg) 60)
         (song_title a) kb
           = Answered (Some m, False) kc"
    and "read_line kc = Answered v kd"
    and "select_match (html cfg) (find_matches (scorer cfg) b (available_songs cfg) 60)
         (song_title b) kd
           = Answered (Some n, False) ke"
  shows "navigate cfg ka =
           Proceed \<lparr>i = 3, selected_songs = [(''song'', Some m), (''song'', Some n)],
             effects = [Announced a, Opened_song (href (song m)),
                        Announced b, Opened_song (href (song n))],
             advances = 3\<rparr> ke
         \<and> main_loop cfg ka = navigate cfg ka
         \<and> m \<in> set (find_matches (scorer cfg) a (available_songs cfg) 60)
         \<and> n \<in> set (find_matches (scorer cfg) b (available_songs cfg) 60)"
proof -
  let ?s1 = "advance (emit (Opened_song (href (song m)))
               (append_selected (''song'', Some m) (emit (Announced a) initial)))"
  let ?s2 = "advance ?s1"
  let ?s3 = "advance (emit (Opened_song (href (song n)))
               (append_selected (''song'', Some n) (emit (Announced b) ?s2)))"
  have i0: "i initial = 0" by (simp add: initial_def)
  have p1: "loop_body cfg initial ka = Proceed ?s1 kc"
    using assms i0
    by (intro song_pick [of cfg initial a ka u kb m kc]) (simp_all add: nth_py_def)
  have i1: "i ?s1 = 1" using i0 by simp
  have p2: "loop_body cfg ?s1 kc = Proceed ?s2 kc"
    using assms(1,2) i1 by (intro break_without_url) (simp_all add: nth_py_def)
  have i2: "i ?s2 = 2" using i1 by simp
  have p3: "loop_body cfg ?s2 kc = Proceed ?s3 ke"
    using assms i2
    by (intro song_pick [of cfg ?s2 b kc v kd n ke]) (simp_all add: nth_py_def)
  have i3: "i ?s3 = 3" using i2 by simp
  have "run cfg initial ka = run cfg ?s1 kc"
    using p1 i0 assms(2) by (intro run_pass) simp_all
  also have "\<dots> = run cfg ?s2 kc" using p2 i1 assms(2) by (intro run_pass) simp_all
  also have "\<dots> = run cfg ?s3 ke" using p3 i2 assms(2) by (intro run_pass) simp_all
  also have "\<dots> = Proceed ?s3 ke" using i3 assms(2) by (intro run_end) simp
  finally have "navigate cfg ka = Proceed ?s3 ke" by (simp add: navigate_def)
  moreover have "?s3 = \<lparr>i = 3, selected_songs = [(''song'', Some m), (''song'', Some n)],
             effects = [Announced a, Opened_song (href (song m)),
                        Announced b, Opened_song (href (song n))],
             advances = 3\<rparr>"
    by (simp add: advance_def emit_def append_selected_def initial_def)
  ultimately have r: "navigate cfg ka =
           Proceed \<lparr>i = 3, selected_songs = [(''song'', Some m), (''song'', Some n)],
             effects = [Announced a, Opened_song (href (song m)),
                        Announced b, Opened_song (href (song n))],
             advances = 3\<rparr> ke"
    by simp
  then have ml: "main_loop cfg ka = navigate cfg ka"
    using assms(1) by (simp add: main_loop_def)
  have ma: "m \<in> set (find_matches (scorer cfg) a (available_songs cfg) 60)"
    using select_match_result [OF assms(6)] by simp
  have mb: "n \<in> set (find_matches (scorer cfg) b (available_songs cfg) 60)"
    using select_match_result [OF assms(8)] by simp
  from r ml ma mb show ?thesis by simp
qed

theorem break_without_url_invisible_witness:
  "navigate \<lparr>html = without_ampersand,
       scorer = (\<lambda>a b. if a = b then 100 else 0), break_url = None,
       input_songs = [Entry (InputSong ''A'' '''' ''1'' ''La''), Break,
         Entry (InputSong ''B'' '''' ''2'' ''Lb'')],
       available_songs = [(''A - '', Song ''A'' '''' ''/a''),
         (''B - '', Song ''B'' '''' ''/b'')]\<rparr>
     [Enter, Enter, Enter, Enter]
   = Proceed \<lparr>i = 3,
       selected_songs = [(''song'', Some (Match ''A - '' (Song ''A'' '''' ''/a'') 100)),
         (''song'', Some (Match ''B - '' (Song ''B'' '''' ''/b'') 100))],
       effects = [Announced (InputSong ''A'' '''' ''1'' ''La''), Opened_song ''/a'',
         Announced (InputSong ''B'' '''' ''2'' ''Lb''), Opened_song ''/b''],
       advances = 3\<rparr> []"
proof -
  let ?cfg = "\<lparr>html = without_ampersand,
       scorer = (\<lambda>a b. if a = b then 100 else 0), break_url = None,
       input_songs = [Entry (InputSong ''A'' '''' ''1'' ''La''), Break,
         Entry (InputSong ''B'' '''' ''2'' ''Lb'')],
       available_songs = [(''A - '', Song ''A'' '''' ''/a''),
         (''B - '', Song ''B'' '''' ''/b'')]\<rparr>"
  let ?a = "InputSong ''A'' '''' ''1'' ''La''"
  let ?b = "InputSong ''B'' '''' ''2'' ''Lb''"
  let ?m = "Match ''A - '' (Song ''A'' '''' ''/a'') 100"
  let ?n = "Match ''B - '' (Song ''B'' '''' ''/b'') 100"
  have h1: "\<not> has_break_url ?cfg" by (simp add: has_break_url_def)
  have h2: "input_songs ?cfg = [Entry ?a, Break, Entry ?b]" by simp
  have fa: "find_matches (scorer ?cfg) ?a (available_songs ?cfg) 60 = [?m]"
    by (simp add: find_matches_def match_step_def search_string_def)
  have fb: "find_matches (scorer ?cfg) ?b (available_songs ?cfg) 60 = [?n]"
    by (simp add: find_matches_def match_step_def search_string_def)
  have h3: "find_matches (scorer ?cfg) ?a (available_songs ?cfg) 60 \<noteq> []"
    by (simp only: fa) simp
  have h4: "find_matches (scorer ?cfg) ?b (available_songs ?cfg) 60 \<noteq> []"
    by (simp only: fb) simp
  have h5: "read_line [Enter, Enter, Enter, Enter] = Answered () [Enter, Enter, Enter]"
    by simp
  have h6: "select_match (html ?cfg) (find_matches (scorer ?cfg) ?a (available_songs ?cfg) 60)
         (song_title ?a)
      [Enter, Enter, Enter] = Answered (Some ?m, False) [Enter, Enter]"
    by (simp only: fa) (simp add: select_match_def nth_py_def select_enter_def text_defs)
  have h7: "read_line [Enter, Enter] = Answered () [Enter]" by simp
  have h8: "select_match (html ?cfg) (find_matches (scorer ?cfg) ?b (available_songs ?cfg) 60)
         (song_title ?b)
      [Enter] = Answered (Some ?n, False) []"
    by (simp only: fb) (simp add: select_match_def nth_py_def select_enter_def text_defs)
  from break_without_url_invisible [OF h1 h2 h3 h4 h5 h6 h7 h8]
  show ?thesis by simp
qed

lemma break_item_Exited:
  assumes "break_item cfg s ks = Exited c s'"
  shows "c = 0 \<and> CtrlC \<in> set ks"
proof (cases "has_break_url cfg")
  case False
  with assms show ?thesis by (simp add: break_item_def)
next
  case True
  show ?thesis
  proof (cases "confirm_break ks")
    case Interrupted
    with assms True confirm_break_Interrupted [of ks] show ?thesis
      by (simp add: break_item_def Let_def)
  next
    case (Answered r ks1)
    obtain tb gb where r: "r = (tb, gb)" by (cases r)
    from Answered have k: "set ks1 \<subseteq> set ks" by (rule confirm_break_keys)
    show ?thesis
    proof (cases "read_line ks1")
      case Interrupted
      then have "CtrlC \<in> set ks1" by (rule read_line_Interrupted)
      with k assms True Answered r Interrupted show ?thesis
        by (auto simp: break_item_def Let_def split: if_splits)
    qed (use assms True Answered r in \<open>auto simp: break_item_def Let_def split: if_splits\<close>)
  qed (use assms True in \<open>simp_all add: break_item_def Let_def\<close>)
qed

lemma song_item_Exited:
  assumes "song_item cfg e s ks = Exited c s'"
  shows "(c = 1 \<and> (\<exists>u ka kb. find_matches (scorer cfg) e (available_songs cfg) 60 = []
            \<and> read_line ks = Answered u ka \<and> confirm_action ka = Answered False kb
            \<and> s' = emit (Announced e) s))
         \<or> (c = 0 \<and> CtrlC \<in> set ks)"
proof (cases "read_line ks")
  case Interrupted
  with assms read_line_Interrupted [of ks] show ?thesis
    by (simp add: song_item_def Let_def)
next
  case (Answered u ks1)
  then have k: "set ks1 \<subseteq> set ks" by (rule read_line_keys)
  let ?ms = "find_matches (scorer cfg) e (available_songs cfg) 60"
  show ?thesis
  proof (cases "?ms = []")
    case True
    show ?thesis
    proof (cases "confirm_action ks1")
      case Interrupted
      then have "CtrlC \<in> set ks1" by (rule confirm_action_Interrupted)
      with k assms Answered True Interrupted show ?thesis
        by (auto simp: song_item_def Let_def)
    next
      case a: (Answered skip ks2)
      with assms Answered True have "\<not> skip \<and> c = 1 \<and> s' = emit (Announced e) s"
        by (auto simp: song_item_def Let_def split: if_splits)
      with Answered True a show ?thesis by auto
    qed (use assms Answered True in \<open>simp_all add: song_item_def Let_def\<close>)
  next
    case False
    show ?thesis
    proof (cases "select_match (html cfg) ?ms (song_title e) ks1")
      case Interrupted
      then have "CtrlC \<in> set ks1" by (rule select_match_Interrupted)
      with k assms Answered False Interrupted show ?thesis
        by (auto simp: song_item_def Let_def)
    qed (use assms Answered False in
        \<open>auto simp: song_item_def Let_def split: if_splits option.splits\<close>)
  qed
qed (use assms in \<open>simp_all add: song_item_def Let_def\<close>)

lemma loop_body_Exited:
  assumes "loop_body cfg s ks = Exited c s'"
  shows "(c = 1 \<and> (\<exists>e u ka kb. nth_py (input_songs cfg) (i s) = Some (Entry e)
            \<and> find_matches (scorer cfg) e (available_songs cfg) 60 = []
            \<and> read_line ks = Answered u ka \<and> confirm_action ka = Answered False kb
            \<and> s' = emit (Announced e) s))
         \<or> (c = 0 \<and> CtrlC \<in> set ks)"
proof (cases "nth_py (input_songs cfg) (i s)")
  case None
  with assms show ?thesis by (simp add: loop_body_def)
next
  case (Some it)
  show ?thesis
  proof (cases it)
    case Break
    with assms Some have "break_item cfg s ks = Exited c s'" by (simp add: loop_body_def)
    then show ?thesis using break_item_Exited by blast
  next
    case (Entry e)
    with assms Some have "song_item cfg e s ks = Exited c s'" by (simp add: loop_body_def)
    from song_item_Exited [OF this] Some Entry show ?thesis by auto
  qed
qed

lemma navigate_Exited:
  assumes "navigate cfg ks = Exited c s'"
  shows "(c = 1 \<and> (\<exists>s0 e u ka kb kc. reachable cfg s0
            \<and> nth_py (input_songs cfg) (i s0) = Some (Entry e)
            \<and> find_matches (scorer cfg) e (available_songs cfg) 60 = []
            \<and> read_line ka = Answered u kb \<and> confirm_action kb = Answered False kc
            \<and> s' = emit (Announced e) s0))
         \<or> (c = 0 \<and> CtrlC \<in> set ks)"
proof -
  from navigate_last [of cfg ks] assms obtain s0 ks0 where r: "reachable cfg s0"
    and k: "set ks0 \<subseteq> set ks" and l: "loop_body cfg s0 ks0 = Exited c s'"
    by auto
  from loop_body_Exited [OF l] show ?thesis
  proof
    assume "c = 1 \<and> (\<exists>e u ka kb. nth_py (input_songs cfg) (i s0) = Some (Entry e)
            \<and> find_matches (scorer cfg) e (available_songs cfg) 60 = []
            \<and> read_line ks0 = Answered u ka \<and> confirm_action ka = Answered False kb
            \<and> s' = emit (Announced e) s0)"
    with r show ?thesis by blast
  next
    assume "c = 0 \<and> CtrlC \<in> set ks0"
    with k show ?thesis by blast
  qed
qed

text \<open>
  C8. When \<open>find_matches\<close> finds nothing for the current song and the operator answers
  "No" to the question whether to skip it, the run ends at once in \<open>sys.exit(1)\<close>:
  nothing more of the setlist is processed and the keys that follow are not read. Of
  the calls of \<open>sys.exit\<close> in the loop this is the only one with a status other than 0;
  the others answer the operator's Ctrl-C at a prompt. It is not the only path on which
  an item aborts the whole run: at the end of the input the \<open>input()\<close> of the
  announcement raises \<open>EOFError\<close>, and where \<open>HTML\<close> rejects the text of the selection
  dialog, as it is first built with the last match highlighted, \<open>select_match\<close>
  raises although matches were found; the program catches neither, and the run ends
  there with nothing recorded for the item. A run that ends in an exception has met the
  end of the input or a song whose dialog text \<open>HTML\<close> rejects.
\<close>

theorem uncaught_exception_aborts_run:
  "(nth_py (input_songs cfg) (i s) = Some (Entry e)
      \<and> find_matches (scorer cfg) e (available_songs cfg) 60 = []
      \<and> read_line ka = Answered u kb \<and> confirm_action kb = Answered False kc
    \<longrightarrow> loop_body cfg s ka = Exited 1 (emit (Announced e) s)
        \<and> run cfg s ka = Exited 1 (emit (Announced e) s)
        \<and> i (emit (Announced e) s) = i s
        \<and> selected_songs (emit (Announced e) s) = selected_songs s)
   \<and> (navigate cfg ks = Exited c t
    \<longrightarrow> (c = 1 \<and> (\<exists>s0 f v kd ke kf. reachable cfg s0
            \<and> nth_py (input_songs cfg) (i s0) = Some (Entry f)
            \<and> find_matches (scorer cfg) f (available_songs cfg) 60 = []
            \<and> read_line kd = Answered v ke \<and> confirm_action ke = Answered False kf
            \<and> t = emit (Announced f) s0))
        \<or> (c = 0 \<and> CtrlC \<in> set ks))
   \<and> (nth_py (input_songs cfg) (i s) = Some (Entry e) \<and> read_line kx = Failed
    \<longrightarrow> run cfg s kx = Crashed (emit (Announced e) s))
   \<and> (nth_py (input_songs cfg) (i s) = Some (Entry e) \<and> read_line ky = Answered w kz
      \<and> find_matches (scorer cfg) e (available_songs cfg) 60 \<noteq> []
      \<and> \<not> html cfg (dialog_text cfg e
             (int (length (find_matches (scorer cfg) e (available_songs cfg) 60)) - 1))
    \<longrightarrow> run cfg s ky = Crashed (emit (Announced e) s))
   \<and> (navigate cfg ks = Crashed t
    \<longrightarrow> Eof \<in> set ks
        \<or> (\<exists>f idx. Entry f \<in> set (input_songs cfg) \<and> \<not> html cfg (dialog_text cfg f idx)))"
proof -
  have a: "nth_py (input_songs cfg) (i s) = Some (Entry e)
      \<and> find_matches (scorer cfg) e (available_songs cfg) 60 = []
      \<and> read_line ka = Answered u kb \<and> confirm_action kb = Answered False kc
    \<longrightarrow> loop_body cfg s ka = Exited 1 (emit (Announced e) s)
        \<and> run cfg s ka = Exited 1 (emit (Announced e) s)
        \<and> i (emit (Announced e) s) = i s
        \<and> selected_songs (emit (Announced e) s) = selected_songs s"
  proof
    assume h: "nth_py (input_songs cfg) (i s) = Some (Entry e)
      \<and> find_matches (scorer cfg) e (available_songs cfg) 60 = []
      \<and> read_line ka = Answered u kb \<and> confirm_action kb = Answered False kc"
    then have l: "loop_body cfg s ka = Exited 1 (emit (Announced e) s)"
      by (intro no_match_decline [of cfg s e ka u kb kc]) simp_all
    from h have "i s < int (length (input_songs cfg))"
      using nth_py_less [of "input_songs cfg" "i s" "Entry e"] by simp
    then have "run cfg s ka = loop_body cfg s ka" using l by (intro run_stop) simp_all
    with l show "loop_body cfg s ka = Exited 1 (emit (Announced e) s)
        \<and> run cfg s ka = Exited 1 (emit (Announced e) s)
        \<and> i (emit (Announced e) s) = i s
        \<and> selected_songs (emit (Announced e) s) = selected_songs s"
      by simp
  qed
  have b: "navigate cfg ks = Exited c t
    \<longrightarrow> (c = 1 \<and> (\<exists>s0 f v kd ke kf. reachable cfg s0
            \<and> nth_py (input_songs cfg) (i s0) = Some (Entry f)
            \<and> find_matches (scorer cfg) f (available_songs cfg) 60 = []
            \<and> read_line kd = Answered v ke \<and> confirm_action ke = Answered False kf
            \<and> t = emit (Announced f) s0))
        \<or> (c = 0 \<and> CtrlC \<in> set ks)"
    using navigate_Exited [of cfg ks c t] by blast
  have c: "nth_py (input_songs cfg) (i s) = Some (Entry e) \<and> read_line kx = Failed
    \<longrightarrow> run cfg s kx = Crashed (emit (Announced e) s)"
  proof
    assume h: "nth_py (input_songs cfg) (i s) = Some (Entry e) \<and> read_line kx = Failed"
    then have l: "loop_body cfg s kx = Crashed (emit (Announced e) s)"
      by (simp add: loop_body_def song_item_def)
    from h have "i s < int (length (input_songs cfg))"
      using nth_py_less [of "input_songs cfg" "i s" "Entry e"] by simp
    then have "run cfg s kx = loop_body cfg s kx" using l by (intro run_stop) simp_all
    with l show "run cfg s kx = Crashed (emit (Announced e) s)" by simp
  qed
  have d: "nth_py (input_songs cfg) (i s) = Some (Entry e) \<and> read_line ky = Answered w kz
      \<and> find_matches (scorer cfg) e (available_songs cfg) 60 \<noteq> []
      \<and> \<not> html cfg (dialog_text cfg e
             (int (length (find_matches (scorer cfg) e (available_songs cfg) 60)) - 1))
    \<longrightarrow> run cfg s ky = Crashed (emit (Announced e) s)"
  proof
    assume h: "nth_py (input_songs cfg) (i s) = Some (Entry e) \<and> read_line ky = Answered w kz
      \<and> find_matches (scorer cfg) e (available_songs cfg) 60 \<noteq> []
      \<and> \<not> html cfg (dialog_text cfg e
             (int (length (find_matches (scorer cfg) e (available_songs cfg) 60)) - 1))"
    then have "select_match (html cfg) (find_matches (scorer cfg) e (available_songs cfg) 60)
        (song_title e) kz = Failed"
      by (simp add: select_match_def dialog_text_def Let_def)
    with h have l: "loop_body cfg s ky = Crashed (emit (Announced e) s)"
      by (simp add: loop_body_def song_item_def)
    from h have "i s < int (length (input_songs cfg))"
      using nth_py_less [of "input_songs cfg" "i s" "Entry e"] by simp
    then have "run cfg s ky = loop_body cfg s ky" using l by (intro run_stop) simp_all
    with l show "run cfg s ky = Crashed (emit (Announced e) s)" by simp
  qed
  have g: "navigate cfg ks = Crashed t
    \<longrightarrow> Eof \<in> set ks
        \<or> (\<exists>f idx. Entry f \<in> set (input_songs cfg) \<and> \<not> html cfg (dialog_text cfg f idx))"
    using navigate_Crashed [of cfg ks t] by blast
  from a b c d g show ?thesis by (intro conjI) assumption+
qed

theorem uncaught_exception_aborts_run_witness:
  "navigate \<lparr>html = without_ampersand,
       scorer = (\<lambda>a b. if a = b then 100 else 0),
       break_url = None,
       input_songs = [Entry (InputSong ''Mrs. Robinson'' ''Simon & Garfunkel'' ''1'' ''Al'')],
       available_songs = [(''Mrs. Robinson - Simon & Garfunkel'',
         Song ''Mrs. Robinson'' ''Simon & Garfunkel'' ''/s'')]\<rparr> [Enter]
   = Crashed \<lparr>i = 0, selected_songs = [],
       effects = [Announced (InputSong ''Mrs. Robinson'' ''Simon & Garfunkel'' ''1'' ''Al'')],
       advances = 0\<rparr>
   \<and> navigate \<lparr>html = without_ampersand,
       scorer = (\<lambda>a b. if a = b then 100 else 0),
       break_url = None,
       input_songs = [Entry (InputSong ''Mrs. Robinson'' ''Simon & Garfunkel'' ''1'' ''Al'')],
       available_songs = [(''Mrs. Robinson - Simon & Garfunkel'',
         Song ''Mrs. Robinson'' ''Simon & Garfunkel'' ''/s'')]\<rparr> [Eof]
   = Crashed \<lparr>i = 0, selected_songs = [],
       effects = [Announced (InputSong ''Mrs. Robinson'' ''Simon & Garfunkel'' ''1'' ''Al'')],
       advances = 0\<rparr>
   \<and> find_matches (\<lambda>a b. if a = b then 100 else 0)
       (InputSong ''Mrs. Robinson'' ''Simon & Garfunkel'' ''1'' ''Al'')
       [(''Mrs. Robinson - Simon & Garfunkel'',
         Song ''Mrs. Robinson'' ''Simon & Garfunkel'' ''/s'')] 60
     = [Match ''Mrs. Robinson - Simon & Garfunkel''
         (Song ''Mrs. Robinson'' ''Simon & Garfunkel'' ''/s'') 100]"
proof -
  let ?e = "InputSong ''Mrs. Robinson'' ''Simon & Garfunkel'' ''1'' ''Al''"
  let ?cfg = "\<lparr>html = without_ampersand,
       scorer = (\<lambda>a b. if a = b then 100 else 0),
       break_url = None, input_songs = [Entry ?e],
       available_songs = [(''Mrs. Robinson - Simon & Garfunkel'',
         Song ''Mrs. Robinson'' ''Simon & Garfunkel'' ''/s'')]\<rparr>"
  have fm: "find_matches (scorer ?cfg) ?e (available_songs ?cfg) 60
     = [Match ''Mrs. Robinson - Simon & Garfunkel''
         (Song ''Mrs. Robinson'' ''Simon & Garfunkel'' ''/s'') 100]"
    by (simp add: find_matches_def match_step_def search_string_def)
  have h1: "nth_py (input_songs ?cfg) (i initial) = Some (Entry ?e)"
    by (simp add: nth_py_def initial_def)
  have h2: "read_line [Eof] = Failed" by simp
  have h3: "read_line [Enter] = Answered () []" by simp
  have h4: "find_matches (scorer ?cfg) ?e (available_songs ?cfg) 60 \<noteq> []"
    by (simp only: fm) simp
  have h5: "\<not> html ?cfg (dialog_text ?cfg ?e
      (int (length (find_matches (scorer ?cfg) ?e (available_songs ?cfg) 60)) - 1))"
    unfolding dialog_text_def by (simp only: fm) (simp add: text_defs)
  from h1 h2 h3 h4 h5
    uncaught_exception_aborts_run [where cfg = ?cfg and s = initial and e = ?e
      and kx = "[Eof]" and ky = "[Enter]" and w = "()" and kz = "[]"]
  have "run ?cfg initial [Eof] = Crashed (emit (Announced ?e) initial)
     \<and> run ?cfg initial [Enter] = Crashed (emit (Announced ?e) initial)"
    by blast
  with fm show ?thesis by (simp add: navigate_def emit_def initial_def)
qed

end
